theory Spec2Isabelle
  imports Main "HOL-Library.AList"
begin

section \<open>Python strings\<close>

text \<open>
  A Python \<open>str\<close> is a sequence of Unicode code points, and the validator tests single
  code points beyond Latin-1 (U+202D, U+202E, ...).  A string is therefore a list of code
  points, each a natural number; \<open>ustr\<close> turns an ASCII literal into such a list.
\<close>

type_synonym ustring = "nat list"

definition ustr :: "string \<Rightarrow> ustring" where
  "ustr s = map of_char s"

text \<open>\<open>str.isspace\<close> for one code point: the characters \<open>str.strip()\<close> and
  \<open>str.split()\<close> treat as whitespace.\<close>

definition is_space :: "nat \<Rightarrow> bool" where
  "is_space c = ((9 \<le> c \<and> c \<le> 13) \<or> (28 \<le> c \<and> c \<le> 32) \<or> c = 133 \<or> c = 160
     \<or> c = 5760 \<or> (8192 \<le> c \<and> c \<le> 8202) \<or> c = 8232 \<or> c = 8233 \<or> c = 8239
     \<or> c = 8287 \<or> c = 12288)"

definition lstrip :: "ustring \<Rightarrow> ustring" where
  "lstrip s = dropWhile is_space s"

definition rstrip :: "ustring \<Rightarrow> ustring" where
  "rstrip s = rev (dropWhile is_space (rev s))"

definition strip :: "ustring \<Rightarrow> ustring" where
  "strip s = lstrip (rstrip s)"

definition startswith :: "ustring \<Rightarrow> ustring \<Rightarrow> bool" where
  "startswith s p = (take (length p) s = p)"

definition endswith :: "ustring \<Rightarrow> ustring \<Rightarrow> bool" where
  "endswith s p = (length p \<le> length s \<and> drop (length s - length p) s = p)"

text \<open>\<open>s.replace(old, new)\<close>: the leftmost occurrences of \<open>old\<close>, not overlapping, are
  replaced in one scan of \<open>s\<close>; an empty \<open>old\<close> matches before every character and at
  the end.\<close>

fun py_replace :: "ustring \<Rightarrow> ustring \<Rightarrow> ustring \<Rightarrow> ustring" where
  "py_replace old new [] = (if old = [] then new else [])"
| "py_replace old new (c # cs) =
     (if old = [] then new @ c # py_replace old new cs
      else if startswith (c # cs) old
        then new @ py_replace old new (drop (length old) (c # cs))
      else c # py_replace old new cs)"

text \<open>\<open>sub in s\<close> for strings.\<close>

fun contains :: "ustring \<Rightarrow> ustring \<Rightarrow> bool" where
  "contains [] sub = (sub = [])"
| "contains (c # cs) sub = (startswith (c # cs) sub \<or> contains cs sub)"

text \<open>\<open>sep.join(parts)\<close>.\<close>

fun join :: "ustring \<Rightarrow> ustring list \<Rightarrow> ustring" where
  "join sep [] = []"
| "join sep [p] = p"
| "join sep (p # q # ps) = p @ sep @ join sep (q # ps)"

section \<open>Escaping and unescaping of string literals\<close>

text \<open>Code points: 92 backslash, 34 double quote, 10 line feed, 13 carriage return,
  9 tab, 110 \<open>n\<close>, 114 \<open>r\<close>, 116 \<open>t\<close>.\<close>

text \<open>\<open>PoSerializer.escape\<close>: five global substitutions, the backslash first.\<close>

definition escape :: "ustring \<Rightarrow> ustring" where
  "escape s =
     (let s = py_replace [92] [92, 92] s;
          s = py_replace [34] [92, 34] s;
          s = py_replace [10] [92, 110] s;
          s = py_replace [13] [92, 114] s;
          s = py_replace [9] [92, 116] s
      in s)"

text \<open>The five substitutions that both \<open>_parse_string\<close> functions apply to the inside of
  a literal, in the source's order.\<close>

definition unescape :: "ustring \<Rightarrow> ustring" where
  "unescape inner =
     (let inner = py_replace [92, 34] [34] inner;
          inner = py_replace [92, 110] [10] inner;
          inner = py_replace [92, 116] [9] inner;
          inner = py_replace [92, 114] [13] inner;
          inner = py_replace [92, 92] [92] inner
      in inner)"

text \<open>\<open>PoParser._parse_string\<close> of the converter: a literal that is not quoted yields
  the empty string.  \<open>raw[1:-1]\<close> is \<open>butlast (tl raw)\<close>.\<close>

definition parse_string :: "ustring \<Rightarrow> ustring" where
  "parse_string raw0 =
     (let raw = strip raw0
      in if startswith raw [34] \<and> endswith raw [34]
         then unescape (butlast (tl raw))
         else [])"

section \<open>More string operations\<close>

text \<open>Line boundaries of \<open>str.splitlines()\<close>: line feed, carriage return (with a
  following line feed as one boundary), vertical tab, form feed, the separators U+001C to
  U+001E, next line U+0085, line and paragraph separator U+2028 and U+2029.\<close>

definition is_linebreak :: "nat \<Rightarrow> bool" where
  "is_linebreak c = ((10 \<le> c \<and> c \<le> 13) \<or> (28 \<le> c \<and> c \<le> 30) \<or> c = 133
     \<or> c = 8232 \<or> c = 8233)"

fun splitlines_from :: "ustring \<Rightarrow> ustring \<Rightarrow> ustring list" where
  "splitlines_from cur [] = (if cur = [] then [] else [cur])"
| "splitlines_from cur [c] = (if is_linebreak c then [cur] else [cur @ [c]])"
| "splitlines_from cur (c # d # ds) =
     (if c = 13 \<and> d = 10 then cur # splitlines_from [] ds
      else if is_linebreak c then cur # splitlines_from [] (d # ds)
      else splitlines_from (cur @ [c]) (d # ds))"

definition splitlines :: "ustring \<Rightarrow> ustring list" where
  "splitlines s = splitlines_from [] s"

text \<open>\<open>s.split()\<close>: the maximal runs of characters that are not whitespace.\<close>

fun split_ws_from :: "ustring \<Rightarrow> ustring \<Rightarrow> ustring list" where
  "split_ws_from cur [] = (if cur = [] then [] else [cur])"
| "split_ws_from cur (c # cs) =
     (if is_space c then (if cur = [] then split_ws_from [] cs else cur # split_ws_from [] cs)
      else split_ws_from (cur @ [c]) cs)"

definition split_ws :: "ustring \<Rightarrow> ustring list" where
  "split_ws s = split_ws_from [] s"

text \<open>\<open>s.split(sep)\<close> for a separator that is not empty (the source passes the
  literals \<open>","\<close> and backslash-\<open>n\<close>; Python rejects an empty one).\<close>

fun split_from :: "ustring \<Rightarrow> ustring \<Rightarrow> ustring \<Rightarrow> ustring list" where
  "split_from sep cur [] = [cur]"
| "split_from sep cur (c # cs) =
     (if sep \<noteq> [] \<and> startswith (c # cs) sep
        then cur # split_from sep [] (drop (length sep) (c # cs))
      else split_from sep (cur @ [c]) cs)"

definition split_sep :: "ustring \<Rightarrow> ustring \<Rightarrow> ustring list" where
  "split_sep s sep = split_from sep [] s"

section \<open>The converter: entries, parser, serializer\<close>

text \<open>The dataclass \<open>PoEntry\<close> of \<open>i18n_converter.py\<close>.\<close>

record po_entry =
  msgid :: ustring
  msgstr :: ustring
  comments :: "ustring list"
  extracted_comments :: "ustring list"
  locations :: "ustring list"
  flags :: "ustring list"
  is_fuzzy :: bool
  is_obsolete :: bool
  is_header :: bool
  line_start :: nat

text \<open>\<open>PoEntry(msgid="", msgstr="", line_start=lineno)\<close>.\<close>

definition new_entry :: "nat \<Rightarrow> po_entry" where
  "new_entry lineno = \<lparr>msgid = [], msgstr = [], comments = [], extracted_comments = [],
     locations = [], flags = [], is_fuzzy = False, is_obsolete = False, is_header = False,
     line_start = lineno\<rparr>"

definition clone_empty :: "po_entry \<Rightarrow> po_entry" where
  "clone_empty e = \<lparr>msgid = msgid e, msgstr = [], comments = comments e,
     extracted_comments = extracted_comments e, locations = locations e,
     flags = filter (\<lambda>f. f \<noteq> ustr ''fuzzy'') (flags e), is_fuzzy = False,
     is_obsolete = is_obsolete e, is_header = is_header e, line_start = 0\<rparr>"

text \<open>An attribute access on \<open>None\<close> raises; the validator's literal parser raises
  \<open>ValueError\<close>, which its caller catches.\<close>

datatype py_error = AttributeError

datatype mode = ModeMsgid | ModeMsgstr

text \<open>The local variables of \<open>PoParser.parse\<close>.\<close>

record parse_state =
  entries :: "po_entry list"
  current :: "po_entry option"
  pmode :: "mode option"

definition flush :: "parse_state \<Rightarrow> parse_state" where
  "flush st =
     (case current st of
        None \<Rightarrow> st
      | Some c \<Rightarrow>
          st\<lparr>entries := (if is_header c \<or> msgid c \<noteq> [] then entries st @ [c] else entries st),
             current := None, pmode := None\<rparr>)"

text \<open>A comment line changes the entry under construction.\<close>

definition parse_comment :: "ustring \<Rightarrow> po_entry \<Rightarrow> po_entry" where
  "parse_comment line cur =
     (if startswith line (ustr ''#,'') then
        (let fl = map strip (split_sep (drop 2 line) (ustr '',''))
         in cur\<lparr>flags := fl, is_fuzzy := (if ustr ''fuzzy'' \<in> set fl then True else is_fuzzy cur)\<rparr>)
      else if startswith line (ustr ''#:'') then
        cur\<lparr>locations := locations cur @ split_ws (strip (drop 2 line))\<rparr>
      else if startswith line (ustr ''#.'') then
        cur\<lparr>extracted_comments := extracted_comments cur @ [strip (drop 2 line)]\<rparr>
      else if startswith line (ustr ''#~'') then
        cur\<lparr>is_obsolete := True, comments := comments cur @ [line]\<rparr>
      else cur\<lparr>comments := comments cur @ [line]\<rparr>)"

text \<open>One iteration of the loop of \<open>PoParser.parse\<close>.  A \<open>msgstr\<close> line, and a
  continuation line, assign to an attribute of \<open>current\<close> without testing it for
  \<open>None\<close>; a line that fits no case is skipped.\<close>

definition parse_line :: "nat \<Rightarrow> ustring \<Rightarrow> parse_state \<Rightarrow> py_error + parse_state" where
  "parse_line lineno raw_line st =
     (let line = strip raw_line in
      if line = [] then Inr (flush st)
      else if startswith line (ustr ''#'') then
        (let cur = (case current st of None \<Rightarrow> new_entry lineno | Some c \<Rightarrow> c)
         in Inr (st\<lparr>current := Some (parse_comment line cur)\<rparr>))
      else if startswith line (ustr ''msgid '') then
        (let st1 = (if current st \<noteq> None \<and> pmode st \<noteq> None then flush st else st);
             cur = (case current st1 of None \<Rightarrow> new_entry lineno | Some c \<Rightarrow> c);
             val = parse_string (drop 6 line);
             cur = cur\<lparr>msgid := val\<rparr>;
             cur = (if val = [] then cur\<lparr>is_header := True\<rparr> else cur)
         in Inr (st1\<lparr>current := Some cur, pmode := Some ModeMsgid\<rparr>))
      else if startswith line (ustr ''msgstr '') then
        (case current st of
           None \<Rightarrow> Inl AttributeError
         | Some cur \<Rightarrow>
             Inr (st\<lparr>current := Some (cur\<lparr>msgstr := parse_string (drop 7 line)\<rparr>),
                     pmode := Some ModeMsgstr\<rparr>))
      else if startswith line [34] \<and> pmode st \<noteq> None then
        (let chunk = parse_string line in
         case current st of
           None \<Rightarrow> Inl AttributeError
         | Some cur \<Rightarrow>
             if pmode st = Some ModeMsgid then
               (let cur = cur\<lparr>msgid := msgid cur @ chunk\<rparr>;
                    cur = (if msgid cur = [] then cur\<lparr>is_header := True\<rparr> else cur)
                in Inr (st\<lparr>current := Some cur\<rparr>))
             else Inr (st\<lparr>current := Some (cur\<lparr>msgstr := msgstr cur @ chunk\<rparr>)\<rparr>))
      else Inr st)"

text \<open>The loop over \<open>enumerate(self.lines)\<close>; \<open>lineno\<close> is the number of the first
  line of \<open>ls\<close>.\<close>

fun parse_lines :: "nat \<Rightarrow> ustring list \<Rightarrow> parse_state \<Rightarrow> py_error + parse_state" where
  "parse_lines lineno [] st = Inr st"
| "parse_lines lineno (l # ls) st =
     (case parse_line lineno l st of
        Inl e \<Rightarrow> Inl e
      | Inr st' \<Rightarrow> parse_lines (Suc lineno) ls st')"

text \<open>\<open>PoParser(content).parse()\<close> of the converter.\<close>

definition parse :: "ustring \<Rightarrow> py_error + po_entry list" where
  "parse content =
     (case parse_lines 1 (splitlines content)
             \<lparr>entries = [], current = None, pmode = None\<rparr> of
        Inl e \<Rightarrow> Inl e
      | Inr st \<Rightarrow> Inr (entries (flush st)))"

text \<open>The location comments of \<open>serialize_entry\<close>: references are packed into lines
  of at most about 76 columns.\<close>

fun pack_locations :: "ustring \<Rightarrow> ustring list \<Rightarrow> ustring list" where
  "pack_locations loc_line [] = [loc_line]"
| "pack_locations loc_line (loc # locs) =
     (if length loc_line + length loc + 1 > 76
        then loc_line # pack_locations (ustr ''#: '' @ loc) locs
      else pack_locations (loc_line @ [32] @ loc) locs)"

text \<open>The quoted lines of a value with line feeds: every chunk but the last ends in the
  escaped line feed.\<close>

fun quote_chunks :: "ustring list \<Rightarrow> ustring list" where
  "quote_chunks [] = []"
| "quote_chunks [chunk] = [[34] @ chunk @ [34]]"
| "quote_chunks (chunk # c # cs) = ([34] @ chunk @ [92, 110] @ [34]) # quote_chunks (c # cs)"

definition serialize_msgid :: "ustring \<Rightarrow> ustring list" where
  "serialize_msgid m =
     (let escaped_id = escape m in
      if 10 \<in> set m
        then (ustr ''msgid '' @ [34, 34]) # quote_chunks (split_sep escaped_id [92, 110])
      else [ustr ''msgid '' @ [34] @ escaped_id @ [34]])"

definition serialize_msgstr :: "ustring \<Rightarrow> ustring list" where
  "serialize_msgstr m =
     (let escaped_str = (if m \<noteq> [] then escape m else []) in
      if m \<noteq> [] \<and> 10 \<in> set m
        then (ustr ''msgstr '' @ [34, 34]) # quote_chunks (split_sep escaped_str [92, 110])
      else [ustr ''msgstr '' @ [34] @ escaped_str @ [34]])"

text \<open>\<open>PoSerializer.serialize_entry\<close>; its parameter \<open>obsolete\<close> is never read.\<close>

definition serialize_entry :: "po_entry \<Rightarrow> ustring" where
  "serialize_entry entry =
     join [10]
       (filter (\<lambda>c. \<not> startswith c (ustr ''#~'')) (comments entry)
        @ map (\<lambda>ec. ustr ''#. '' @ ec) (extracted_comments entry)
        @ (if locations entry \<noteq> [] then pack_locations (ustr ''#:'') (locations entry) else [])
        @ (if flags entry \<noteq> [] then [ustr ''#, '' @ join (ustr '', '') (flags entry)] else [])
        @ serialize_msgid (msgid entry)
        @ serialize_msgstr (msgstr entry))"

definition serialize :: "po_entry list \<Rightarrow> ustring" where
  "serialize es = join [10, 10] (map serialize_entry es) @ [10]"

section \<open>The converter: merge\<close>

text \<open>A \<open>dict\<close> keeps its keys in insertion order, and the merge iterates over it: it
  is an association list.  \<open>d[k] = v\<close> is \<open>AList.update k v d\<close>, which replaces the
  value of a key already present where it stands and appends a new key; \<open>d.get(k)\<close> is
  \<open>map_of d k\<close>.\<close>

type_synonym entry_dict = "(ustring \<times> po_entry) list"

text \<open>\<open>{e.msgid: e for e in entries if not e.is_header}\<close>.\<close>

definition build_map :: "po_entry list \<Rightarrow> entry_dict" where
  "build_map es =
     foldl (\<lambda>d e. AList.update (msgid e) e d) [] (filter (\<lambda>e. \<not> is_header e) es)"

text \<open>The regular expression \<open>PO-Revision-Date:[^\n]*\\n\<close> of \<open>action_merge\<close>: the
  field name, then characters other than a line feed, as many as possible, then a
  backslash and the letter \<open>n\<close>.  \<open>last_backslash_n s\<close> is the index of the last
  backslash-\<open>n\<close> pair of \<open>s\<close>, and \<open>match_revision_date s\<close> the length of the match
  at the start of \<open>s\<close>.\<close>

fun last_backslash_n :: "ustring \<Rightarrow> nat option" where
  "last_backslash_n [] = None"
| "last_backslash_n (c # cs) =
     (case last_backslash_n cs of
        Some j \<Rightarrow> Some (Suc j)
      | None \<Rightarrow> if startswith (c # cs) [92, 110] then Some 0 else None)"

definition match_revision_date :: "ustring \<Rightarrow> nat option" where
  "match_revision_date s =
     (if startswith s (ustr ''PO-Revision-Date:'') then
        (case last_backslash_n (takeWhile (\<lambda>c. c \<noteq> 10) (drop 17 s)) of
           Some j \<Rightarrow> Some (17 + j + 2)
         | None \<Rightarrow> None)
      else None)"

text \<open>\<open>re.sub\<close> with that pattern and the template \<open>PO-Revision-Date: {now}\n\<close>, whose
  last two characters \<open>re.sub\<close> reads as a line feed.  \<open>now\<close> is the clock's value in
  the format \<open>%Y-%m-%d %H:%M+0000\<close> (digits and punctuation, no backslash).\<close>

function sub_revision_date :: "ustring \<Rightarrow> ustring \<Rightarrow> ustring" where
  "sub_revision_date now [] = []"
| "sub_revision_date now (c # cs) =
     (case match_revision_date (c # cs) of
        Some n \<Rightarrow> (ustr ''PO-Revision-Date: '' @ now @ [10])
                  @ sub_revision_date now (drop n (c # cs))
      | None \<Rightarrow> c # sub_revision_date now cs)"
  by pat_completeness auto
termination
  by (relation "measure (\<lambda>(now, s). length s)")
     (auto simp: match_revision_date_def split: if_splits option.splits)

record merge_result =
  merged :: "po_entry list"
  preserved :: nat
  added :: nat
  marked_obsolete :: nat

text \<open>The loop over \<open>new_map.items()\<close>.  It assigns to \<open>base_entry.locations\<close>, an
  object that \<open>base_map\<close> holds: the dictionary is returned with the changed entry.\<close>

fun merge_new :: "entry_dict \<Rightarrow> entry_dict \<Rightarrow> merge_result \<Rightarrow> entry_dict \<times> merge_result" where
  "merge_new [] base_map r = (base_map, r)"
| "merge_new ((k, new_e) # items) base_map r =
     (case map_of base_map k of
        Some base_entry \<Rightarrow>
          (let base_entry = base_entry\<lparr>locations :=
                 (if locations new_e \<noteq> [] then locations new_e else locations base_entry)\<rparr>
           in merge_new items (AList.update k base_entry base_map)
                (r\<lparr>merged := merged r @ [base_entry], preserved := preserved r + 1\<rparr>))
      | None \<Rightarrow>
          merge_new items base_map
            (r\<lparr>merged := merged r @ [clone_empty new_e], added := added r + 1\<rparr>))"

text \<open>The loop over \<open>base_map.items()\<close>.\<close>

fun merge_obsolete :: "entry_dict \<Rightarrow> entry_dict \<Rightarrow> merge_result \<Rightarrow> merge_result" where
  "merge_obsolete [] new_map r = r"
| "merge_obsolete ((k, base_entry) # items) new_map r =
     (if map_of new_map k = None then
        (let base_entry = base_entry\<lparr>is_obsolete := True,
               comments := ustr ''#~ obsolete'' # comments base_entry\<rparr>
         in merge_obsolete items new_map
              (r\<lparr>merged := merged r @ [base_entry], marked_obsolete := marked_obsolete r + 1\<rparr>))
      else merge_obsolete items new_map r)"

text \<open>\<open>action_merge\<close> between parsing and serializing: from the two parsed catalogs to
  the merged list and the three counters.\<close>

definition merge_entries :: "ustring \<Rightarrow> po_entry list \<Rightarrow> po_entry list \<Rightarrow> merge_result" where
  "merge_entries now base_entries new_entries =
     (let base_map = build_map base_entries;
          new_map = build_map new_entries;
          header = find is_header base_entries;
          header = map_option (\<lambda>h. h\<lparr>msgstr := sub_revision_date now (msgstr h)\<rparr>) header;
          merged0 = (case header of None \<Rightarrow> [] | Some h \<Rightarrow> [h]);
          (base_map, r) = merge_new new_map base_map
             \<lparr>merged = merged0, preserved = 0, added = 0, marked_obsolete = 0\<rparr>
      in merge_obsolete base_map new_map r)"

text \<open>\<open>action_merge\<close> on the contents of the two files: the text written to the output
  file and the counters.\<close>

definition action_merge :: "ustring \<Rightarrow> ustring \<Rightarrow> ustring \<Rightarrow> py_error + ustring \<times> merge_result" where
  "action_merge now base_content new_content =
     (case parse base_content of
        Inl e \<Rightarrow> Inl e
      | Inr base_entries \<Rightarrow>
          (case parse new_content of
             Inl e \<Rightarrow> Inl e
           | Inr new_entries \<Rightarrow>
               (let r = merge_entries now base_entries new_entries
                in Inr (serialize (merged r), r))))"

section \<open>The validator: entries and parser\<close>

text \<open>The dataclass \<open>PoEntry\<close> of \<open>i18n_validator.py\<close>, a class of its own: it has no
  extracted comments.  Its fields carry the prefix \<open>v_\<close> here.\<close>

record v_entry =
  v_msgid :: ustring
  v_msgstr :: ustring
  v_comments :: "ustring list"
  v_flags :: "ustring list"
  v_locations :: "ustring list"
  v_line_start :: nat
  v_is_header :: bool
  v_is_fuzzy :: bool
  v_is_obsolete :: bool

definition v_new_entry :: "nat \<Rightarrow> v_entry" where
  "v_new_entry lineno = \<lparr>v_msgid = [], v_msgstr = [], v_comments = [], v_flags = [],
     v_locations = [], v_line_start = lineno, v_is_header = False, v_is_fuzzy = False,
     v_is_obsolete = False\<rparr>"

text \<open>The messages of the parse errors: \<open>Malformed string at line {lineno}: {raw!r}\<close> and
  \<open>Unexpected content: {raw_line!r}\<close>, by their arguments.\<close>

datatype parse_message = MalformedString nat ustring | UnexpectedContent ustring

text \<open>\<open>PoParser._parse_string\<close> of the validator raises \<open>ValueError\<close> on a literal that
  is not quoted; \<open>Inl\<close> is the exception with its message.\<close>

definition v_parse_string :: "ustring \<Rightarrow> nat \<Rightarrow> parse_message + ustring" where
  "v_parse_string raw0 lineno =
     (let raw = strip raw0
      in if \<not> startswith raw [34] \<or> \<not> endswith raw [34]
         then Inl (MalformedString lineno raw)
         else Inr (unescape (butlast (tl raw))))"

record v_parse_state =
  v_entries :: "v_entry list"
  v_current :: "v_entry option"
  v_mode :: "mode option"
  parse_errors :: "(nat \<times> parse_message) list"

text \<open>What the validator's parser does at a blank line and, without the reset of
  \<open>current\<close> and \<open>mode\<close>, after the last line.\<close>

definition v_finalize :: "v_entry \<Rightarrow> v_entry" where
  "v_finalize c = (if v_msgid c = [] then c\<lparr>v_is_header := True\<rparr> else c)"

definition v_parse_comment :: "ustring \<Rightarrow> v_entry \<Rightarrow> v_entry" where
  "v_parse_comment line cur =
     (if startswith line (ustr ''#,'') then
        (let fl = map strip (split_sep (strip (drop 2 line)) (ustr '',''))
         in cur\<lparr>v_flags := fl,
                v_is_fuzzy := (if ustr ''fuzzy'' \<in> set fl then True else v_is_fuzzy cur)\<rparr>)
      else if startswith line (ustr ''#:'') then
        cur\<lparr>v_locations := v_locations cur @ split_ws (strip (drop 2 line))\<rparr>
      else if startswith line (ustr ''#~'') then
        cur\<lparr>v_is_obsolete := True, v_comments := v_comments cur @ [line]\<rparr>
      else cur\<lparr>v_comments := v_comments cur @ [line]\<rparr>)"

text \<open>One iteration of the \<open>while\<close> loop of the validator's \<open>parse\<close>.  \<open>mode\<close> is
  assigned before the literal is parsed; a \<open>ValueError\<close> of the literal is caught and
  recorded, and then nothing is assigned; otherwise the assignment reads or writes an
  attribute of \<open>current\<close>, which may be \<open>None\<close>.\<close>

definition v_parse_line :: "nat \<Rightarrow> ustring \<Rightarrow> v_parse_state \<Rightarrow> py_error + v_parse_state" where
  "v_parse_line lineno raw_line st =
     (let line = strip raw_line in
      if line = [] then
        (case v_current st of
           None \<Rightarrow> Inr st
         | Some c \<Rightarrow>
             if v_msgid c \<noteq> [] \<or> v_is_header c
             then Inr (st\<lparr>v_entries := v_entries st @ [v_finalize c],
                          v_current := None, v_mode := None\<rparr>)
             else Inr st)
      else if startswith line (ustr ''#'') then
        (let cur = (case v_current st of None \<Rightarrow> v_new_entry lineno | Some c \<Rightarrow> c)
         in Inr (st\<lparr>v_current := Some (v_parse_comment line cur)\<rparr>))
      else if startswith line (ustr ''msgid '') then
        (let cur = (case v_current st of None \<Rightarrow> v_new_entry lineno | Some c \<Rightarrow> c);
             st = st\<lparr>v_current := Some cur, v_mode := Some ModeMsgid\<rparr>
         in case v_parse_string (drop 6 line) lineno of
              Inr val \<Rightarrow>
                (let cur = cur\<lparr>v_msgid := val\<rparr>;
                     cur = (if val = [] then cur\<lparr>v_is_header := True\<rparr> else cur)
                 in Inr (st\<lparr>v_current := Some cur\<rparr>))
            | Inl exc \<Rightarrow> Inr (st\<lparr>parse_errors := parse_errors st @ [(lineno, exc)]\<rparr>))
      else if startswith line (ustr ''msgstr '') then
        (let st = st\<lparr>v_mode := Some ModeMsgstr\<rparr>
         in case v_parse_string (drop 7 line) lineno of
              Inr val \<Rightarrow>
                (case v_current st of
                   None \<Rightarrow> Inl AttributeError
                 | Some cur \<Rightarrow> Inr (st\<lparr>v_current := Some (cur\<lparr>v_msgstr := val\<rparr>)\<rparr>))
            | Inl exc \<Rightarrow> Inr (st\<lparr>parse_errors := parse_errors st @ [(lineno, exc)]\<rparr>))
      else if startswith line [34] \<and> v_mode st \<noteq> None then
        (case v_parse_string line lineno of
           Inr chunk \<Rightarrow>
             (case v_current st of
                None \<Rightarrow> Inl AttributeError
              | Some cur \<Rightarrow>
                  if v_mode st = Some ModeMsgid
                  then Inr (st\<lparr>v_current := Some (cur\<lparr>v_msgid := v_msgid cur @ chunk\<rparr>)\<rparr>)
                  else Inr (st\<lparr>v_current := Some (cur\<lparr>v_msgstr := v_msgstr cur @ chunk\<rparr>)\<rparr>))
         | Inl exc \<Rightarrow> Inr (st\<lparr>parse_errors := parse_errors st @ [(lineno, exc)]\<rparr>))
      else Inr (st\<lparr>parse_errors := parse_errors st @ [(lineno, UnexpectedContent raw_line)]\<rparr>))"

fun v_parse_lines :: "nat \<Rightarrow> ustring list \<Rightarrow> v_parse_state \<Rightarrow> py_error + v_parse_state" where
  "v_parse_lines lineno [] st = Inr st"
| "v_parse_lines lineno (l # ls) st =
     (case v_parse_line lineno l st of
        Inl e \<Rightarrow> Inl e
      | Inr st' \<Rightarrow> v_parse_lines (Suc lineno) ls st')"

text \<open>\<open>PoParser(content).parse()\<close> of the validator, with the attribute
  \<open>parse_errors\<close> that its caller reads afterwards.\<close>

definition v_parse :: "ustring \<Rightarrow> py_error + v_entry list \<times> (nat \<times> parse_message) list" where
  "v_parse content =
     (case v_parse_lines 1 (splitlines content)
             \<lparr>v_entries = [], v_current = None, v_mode = None, parse_errors = []\<rparr> of
        Inl e \<Rightarrow> Inl e
      | Inr st \<Rightarrow>
          Inr ((case v_current st of
                  None \<Rightarrow> v_entries st
                | Some c \<Rightarrow>
                    if v_msgid c \<noteq> [] \<or> v_is_header c
                    then v_entries st @ [v_finalize c] else v_entries st),
               parse_errors st))"

section \<open>The validator: checks\<close>

datatype severity = Error | Warning | Info

text \<open>The message of a finding, by its template and the values formatted into it.  Where
  the source prints a Python \<open>set\<close>, whose order is not fixed, the value is a set.\<close>

datatype message =
    NoEntriesFound
  | FuzzyTranslation
  | EmptyTranslation
  | FormatSpecifierMismatch nat nat
  | MissingNamedSpecifiers "ustring set"
  | NoArabicCharacters
  | MojibakeDetected
  | DirectionControlCharacters "nat set"
  | BidiOverrideCharacters
  | LeadingWhitespaceDiffers nat nat
  | TrailingWhitespaceDiffers nat nat
  | DuplicateMsgid nat

text \<open>\<open>ValidationIssue\<close>; the field \<open>context\<close> is \<open>ctxt\<close> here.\<close>

record issue =
  severity :: severity
  line :: nat
  message :: message
  ctxt :: ustring

definition mk_issue :: "severity \<Rightarrow> nat \<Rightarrow> message \<Rightarrow> ustring \<Rightarrow> issue" where
  "mk_issue sev l m c = \<lparr>severity = sev, line = l, message = m, ctxt = c\<rparr>"

text \<open>The conversion characters \<open>s d i f r o %\<close> of the pattern
  \<open>%(?:\([^)]+\))?[sdifro%]\<close>.\<close>

definition is_conversion :: "nat \<Rightarrow> bool" where
  "is_conversion c = (c = 115 \<or> c = 100 \<or> c = 105 \<or> c = 102 \<or> c = 114 \<or> c = 111 \<or> c = 37)"

text \<open>The length of the match of that pattern at the start of \<open>s\<close>.  After a percent
  sign (37) and an opening parenthesis (40) the name is the longest run of characters
  other than the closing parenthesis (41); giving characters back cannot help, the
  closing parenthesis has to follow the run.  An opening parenthesis is no conversion
  character, so without the group there is no match either.\<close>

definition match_spec :: "ustring \<Rightarrow> nat option" where
  "match_spec s =
     (if startswith s [37] then
        (let rest = tl s in
         if startswith rest [40] then
           (let name = takeWhile (\<lambda>c. c \<noteq> 41) (tl rest);
                after = dropWhile (\<lambda>c. c \<noteq> 41) (tl rest)
            in if name \<noteq> [] \<and> startswith after [41]
                  \<and> tl after \<noteq> [] \<and> is_conversion (hd (tl after))
               then Some (length name + 4) else None)
         else if rest \<noteq> [] \<and> is_conversion (hd rest) then Some 2 else None)
      else None)"

text \<open>\<open>spec_pattern.findall(s)\<close>: the matches from left to right, each search starting
  where the match before ended.\<close>

function findall_spec :: "ustring \<Rightarrow> ustring list" where
  "findall_spec [] = []"
| "findall_spec (c # cs) =
     (case match_spec (c # cs) of
        Some n \<Rightarrow> take n (c # cs) # findall_spec (drop n (c # cs))
      | None \<Rightarrow> findall_spec cs)"
  by pat_completeness auto
termination
  by (relation "measure length") (auto simp: match_spec_def Let_def split: if_splits)

text \<open>\<open>re.search(r'\(([^)]+)\)', s)\<close>: the group of the leftmost match, \<open>None\<close> when
  there is no match.\<close>

fun search_name :: "ustring \<Rightarrow> ustring option" where
  "search_name [] = None"
| "search_name (c # cs) =
     (if c = 40 \<and> takeWhile (\<lambda>c. c \<noteq> 41) cs \<noteq> [] \<and> dropWhile (\<lambda>c. c \<noteq> 41) cs \<noteq> []
      then Some (takeWhile (\<lambda>c. c \<noteq> 41) cs)
      else search_name cs)"

text \<open>The set comprehension over the specifiers with a parenthesis; \<open>.group(1)\<close> on a
  failed search raises.\<close>

fun named_specs :: "ustring list \<Rightarrow> py_error + ustring set" where
  "named_specs [] = Inr {}"
| "named_specs (s # ss) =
     (if 40 \<in> set s then
        (case search_name s of
           None \<Rightarrow> Inl AttributeError
         | Some name \<Rightarrow>
             (case named_specs ss of Inl e \<Rightarrow> Inl e | Inr names \<Rightarrow> Inr (insert name names)))
      else named_specs ss)"

definition positional_specs :: "ustring list \<Rightarrow> ustring list" where
  "positional_specs specs = filter (\<lambda>s. \<not> startswith s [37, 40]) specs"

definition check_format_specifiers :: "v_entry \<Rightarrow> nat \<Rightarrow> py_error + issue list" where
  "check_format_specifiers entry lineno =
     (let src_specs = findall_spec (v_msgid entry);
          dst_specs = (if v_msgstr entry \<noteq> [] then findall_spec (v_msgstr entry) else []);
          src_positional = positional_specs src_specs;
          dst_positional = positional_specs dst_specs;
          mismatch =
            (if length src_positional \<noteq> length dst_positional
             then [mk_issue Error lineno
                     (FormatSpecifierMismatch (length src_positional) (length dst_positional))
                     (take 60 (v_msgid entry))]
             else [])
      in case named_specs src_specs of
           Inl e \<Rightarrow> Inl e
         | Inr src_named \<Rightarrow>
             (case named_specs dst_specs of
                Inl e \<Rightarrow> Inl e
              | Inr dst_named \<Rightarrow>
                  (let missing_named = src_named - dst_named
                   in Inr (mismatch @
                        (if missing_named \<noteq> {}
                         then [mk_issue Error lineno (MissingNamedSpecifiers missing_named)
                                 (take 60 (v_msgid entry))]
                         else [])))))"

text \<open>\<open>PoValidator.RTL_MARKS\<close>: U+200F, U+200E, U+202B, U+202A, U+202C, U+202D, U+202E,
  U+2067, U+2066, U+2069.\<close>

definition RTL_MARKS :: "nat set" where
  "RTL_MARKS = {8207, 8206, 8235, 8234, 8236, 8237, 8238, 8295, 8294, 8297}"

text \<open>\<open>_check_arabic_specific\<close>.  \<open>arabic_name ch\<close> stands for the test of the Unicode
  character database, \<open>unicodedata.name(ch, "").startswith("ARABIC")\<close>; 216 and 217
  are the two letters that mis-decoded Arabic text shows.  The names printed for the
  marks are represented by the marks.\<close>

definition check_arabic_specific :: "(nat \<Rightarrow> bool) \<Rightarrow> v_entry \<Rightarrow> nat \<Rightarrow> issue list" where
  "check_arabic_specific arabic_name entry lineno =
     (let msgstr = v_msgstr entry;
          has_arabic = list_ex (\<lambda>ch. \<not> is_space ch \<and> arabic_name ch) msgstr;
          suspicious_marks = filter (\<lambda>ch. ch \<in> RTL_MARKS) msgstr
      in (if \<not> has_arabic \<and> length (strip msgstr) > 2
          then [mk_issue Warning lineno NoArabicCharacters (take 60 msgstr)] else [])
       @ (if 216 \<in> set msgstr \<or> 217 \<in> set msgstr
          then [mk_issue Error lineno MojibakeDetected (take 60 msgstr)] else [])
       @ (if suspicious_marks \<noteq> []
          then [mk_issue Info lineno (DirectionControlCharacters (set suspicious_marks))
                  (take 40 msgstr)]
          else []))"

definition check_bidi_issues :: "v_entry \<Rightarrow> nat \<Rightarrow> issue list" where
  "check_bidi_issues entry lineno =
     (if v_msgstr entry = [] then []
      else (let override_chars = filter (\<lambda>ch. ch = 8238 \<or> ch = 8237) (v_msgstr entry)
            in if override_chars \<noteq> []
               then [mk_issue Error lineno BidiOverrideCharacters []]
               else []))"

definition check_whitespace :: "v_entry \<Rightarrow> nat \<Rightarrow> issue list" where
  "check_whitespace entry lineno =
     (if v_msgstr entry = [] then []
      else (let src_leading = length (v_msgid entry) - length (lstrip (v_msgid entry));
                dst_leading = length (v_msgstr entry) - length (lstrip (v_msgstr entry));
                src_trailing = length (v_msgid entry) - length (rstrip (v_msgid entry));
                dst_trailing = length (v_msgstr entry) - length (rstrip (v_msgstr entry))
            in (if src_leading \<noteq> dst_leading \<and> (src_leading > 0 \<or> dst_leading > 0)
                then [mk_issue Info lineno (LeadingWhitespaceDiffers src_leading dst_leading)
                        (take 40 (v_msgid entry))]
                else [])
             @ (if src_trailing \<noteq> dst_trailing \<and> (src_trailing > 0 \<or> dst_trailing > 0)
                then [mk_issue Info lineno (TrailingWhitespaceDiffers src_trailing dst_trailing)
                        (take 40 (v_msgid entry))]
                else [])))"

text \<open>\<open>_check_entry\<close>, as the findings it appends.  \<open>is_arabic\<close> and \<open>strict\<close> are the
  validator's attributes of these names.\<close>

definition check_entry ::
  "(nat \<Rightarrow> bool) \<Rightarrow> bool \<Rightarrow> bool \<Rightarrow> v_entry \<Rightarrow> py_error + issue list" where
  "check_entry arabic_name is_arabic strict entry =
     (let lineno = v_line_start entry in
      if v_is_obsolete entry then Inr []
      else
        (let fuzzy = (if v_is_fuzzy entry
                      then [mk_issue Warning lineno FuzzyTranslation (take 60 (v_msgid entry))]
                      else [])
         in if v_msgstr entry = [] then
              Inr (fuzzy @ [mk_issue (if \<not> strict then Warning else Error) lineno
                              EmptyTranslation (take 60 (v_msgid entry))])
            else
              (case (if ustr ''python-format'' \<in> set (v_flags entry)
                     then check_format_specifiers entry lineno else Inr []) of
                 Inl e \<Rightarrow> Inl e
               | Inr fmt \<Rightarrow>
                   Inr (fuzzy @ fmt
                        @ (if is_arabic \<and> v_msgstr entry \<noteq> []
                           then check_arabic_specific arabic_name entry lineno else [])
                        @ check_bidi_issues entry lineno
                        @ check_whitespace entry lineno))))"

text \<open>The attribute \<open>is_arabic\<close>: \<open>self.lang.lower().startswith("ar")\<close>, with
  \<open>str.lower\<close> as a parameter.\<close>

definition lang_is_arabic :: "(ustring \<Rightarrow> ustring) \<Rightarrow> ustring \<Rightarrow> bool" where
  "lang_is_arabic lower lang = startswith (lower lang) (ustr ''ar'')"

text \<open>\<open>_check_duplicate_msgids\<close>; \<open>seen\<close> is the dictionary from a \<open>msgid\<close> to the line
  of its first entry.\<close>

fun check_duplicates_from :: "(ustring \<rightharpoonup> nat) \<Rightarrow> v_entry list \<Rightarrow> issue list" where
  "check_duplicates_from seen [] = []"
| "check_duplicates_from seen (entry # es) =
     (case seen (v_msgid entry) of
        Some first_line \<Rightarrow>
          mk_issue Error (v_line_start entry) (DuplicateMsgid first_line)
            (take 60 (v_msgid entry)) # check_duplicates_from seen es
      | None \<Rightarrow> check_duplicates_from (seen(v_msgid entry \<mapsto> v_line_start entry)) es)"

definition check_duplicate_msgids :: "v_entry list \<Rightarrow> issue list" where
  "check_duplicate_msgids es = check_duplicates_from Map.empty es"

fun check_entries ::
  "(nat \<Rightarrow> bool) \<Rightarrow> bool \<Rightarrow> bool \<Rightarrow> v_entry list \<Rightarrow> py_error + issue list" where
  "check_entries arabic_name is_arabic strict [] = Inr []"
| "check_entries arabic_name is_arabic strict (e # es) =
     (case check_entry arabic_name is_arabic strict e of
        Inl x \<Rightarrow> Inl x
      | Inr iss \<Rightarrow>
          (case check_entries arabic_name is_arabic strict es of
             Inl x \<Rightarrow> Inl x
           | Inr rest \<Rightarrow> Inr (iss @ rest)))"

text \<open>\<open>validate_all\<close>.  The findings of \<open>_check_header\<close>, regular-expression tests of the
  header's fields, come first; they enter as the parameter \<open>check_header\<close>.\<close>

definition validate_all ::
  "(v_entry option \<Rightarrow> issue list) \<Rightarrow> (nat \<Rightarrow> bool) \<Rightarrow> bool \<Rightarrow> bool \<Rightarrow> v_entry list
     \<Rightarrow> py_error + issue list" where
  "validate_all check_header arabic_name is_arabic strict es =
     (if es = [] then Inr [mk_issue Error 0 NoEntriesFound []]
      else
        (let header = find v_is_header es;
             non_header = filter (\<lambda>e. \<not> v_is_header e) es
         in case check_entries arabic_name is_arabic strict non_header of
              Inl x \<Rightarrow> Inl x
            | Inr iss \<Rightarrow> Inr (check_header header @ iss @ check_duplicate_msgids non_header)))"

section \<open>Notions used in the statements\<close>

text \<open>The entries of a catalog that are not headers, as \<open>action_merge\<close> and
  \<open>validate_all\<close> select them.\<close>

definition non_header :: "po_entry list \<Rightarrow> po_entry list" where
  "non_header es = filter (\<lambda>e. \<not> is_header e) es"

text \<open>The distinct elements of a list in the order of their first occurrence.\<close>

definition first_occurrences :: "ustring list \<Rightarrow> ustring list" where
  "first_occurrences ks = rev (remdups (rev ks))"

text \<open>What \<open>action_merge\<close> does to a header entry.\<close>

definition stamp_header :: "ustring \<Rightarrow> po_entry \<Rightarrow> po_entry" where
  "stamp_header now e =
     (if is_header e then e\<lparr>msgstr := sub_revision_date now (msgstr e)\<rparr> else e)"

text \<open>A format specifier as the specification describes it: a percent sign, an optional
  name in parentheses (not empty, without a closing parenthesis), and one conversion
  character.\<close>

definition is_spec_token :: "ustring \<Rightarrow> bool" where
  "is_spec_token x =
     (x \<noteq> [] \<and> is_conversion (last x)
      \<and> (x = [37, last x]
         \<or> (let name = take (length x - 4) (drop 2 x)
            in name \<noteq> [] \<and> 41 \<notin> set name \<and> x = [37, 40] @ name @ [41, last x])))"

text \<open>The names of the named specifiers of a list of specifiers.\<close>

definition spec_names :: "ustring list \<Rightarrow> ustring set" where
  "spec_names specs =
     set (map (\<lambda>x. take (length x - 4) (drop 2 x)) (filter (\<lambda>x. startswith x [37, 40]) specs))"

text \<open>The findings that the comparison of the specifiers of an entry calls for.\<close>

definition format_findings :: "v_entry \<Rightarrow> issue list" where
  "format_findings e =
     (let src = findall_spec (v_msgid e); dst = findall_spec (v_msgstr e);
          n_src = length (positional_specs src); n_dst = length (positional_specs dst);
          missing = spec_names src - spec_names dst
      in (if n_src \<noteq> n_dst
          then [mk_issue Error (v_line_start e) (FormatSpecifierMismatch n_src n_dst)
                  (take 60 (v_msgid e))]
          else [])
       @ (if missing \<noteq> {}
          then [mk_issue Error (v_line_start e) (MissingNamedSpecifiers missing)
                  (take 60 (v_msgid e))]
          else []))"

definition is_format_finding :: "issue \<Rightarrow> bool" where
  "is_format_finding i =
     (case message i of FormatSpecifierMismatch a b \<Rightarrow> True
      | MissingNamedSpecifiers names \<Rightarrow> True | _ \<Rightarrow> False)"

definition is_direction_finding :: "issue \<Rightarrow> bool" where
  "is_direction_finding i =
     (case message i of DirectionControlCharacters marks \<Rightarrow> True | _ \<Rightarrow> False)"

definition is_override_finding :: "issue \<Rightarrow> bool" where
  "is_override_finding i = (message i = BidiOverrideCharacters)"



subsection \<open>Sample inputs\<close>

text \<open>A sample of the character database's test: the Arabic block U+0600 to U+06FF.\<close>

definition sample_arabic_name :: "nat \<Rightarrow> bool" where
  "sample_arabic_name c = (1536 \<le> c \<and> c \<le> 1791)"

definition sample_now :: ustring where
  "sample_now = ustr ''2026-11-04 12:00+0000''"

definition sample_header :: po_entry where
  "sample_header = (new_entry 1)\<lparr>is_header := True,
     msgstr := ustr ''Language: fr'' @ [10] @ ustr ''PO-Revision-Date: 2020-01-01 00:00+0000'' @ [10]\<rparr>"

definition save_a :: po_entry where
  "save_a = (new_entry 1)\<lparr>msgid := ustr ''Save'', msgstr := ustr ''A''\<rparr>"

definition save_b :: po_entry where
  "save_b = (new_entry 4)\<lparr>msgid := ustr ''Save'', msgstr := ustr ''B''\<rparr>"

definition old_entry :: po_entry where
  "old_entry = (new_entry 1)\<lparr>msgid := ustr ''Old'', msgstr := ustr ''Vieux'', is_obsolete := True\<rparr>"

definition obsolete_save :: v_entry where
  "obsolete_save = (v_new_entry 10)\<lparr>v_msgid := ustr ''Save'', v_msgstr := ustr ''Sauver'',
     v_comments := [ustr ''#~ old''], v_is_obsolete := True\<rparr>"

definition active_save :: v_entry where
  "active_save = (v_new_entry 40)\<lparr>v_msgid := ustr ''Save'', v_msgstr := ustr ''Enregistrer''\<rparr>"

definition format_example :: v_entry where
  "format_example = (v_new_entry 7)\<lparr>v_msgid := ustr ''Hello %s, you have %d items'',
     v_msgstr := ustr ''Bonjour %s, vous avez des articles'',
     v_flags := [ustr ''python-format'']\<rparr>"

definition untranslated_format_entry :: v_entry where
  "untranslated_format_entry = (v_new_entry 3)\<lparr>v_msgid := ustr ''%s'',
     v_flags := [ustr ''python-format'']\<rparr>"

definition c_format_entry :: v_entry where
  "c_format_entry = (v_new_entry 5)\<lparr>v_msgid := ustr ''%s and %d'', v_msgstr := ustr ''%s'',
     v_flags := [ustr ''c-format'']\<rparr>"

definition mark_entry :: v_entry where
  "mark_entry = (v_new_entry 3)\<lparr>v_msgid := ustr ''ok'', v_msgstr := [8207] @ ustr ''ok''\<rparr>"

definition override_entry :: v_entry where
  "override_entry = (v_new_entry 9)\<lparr>v_msgid := ustr ''ok'', v_msgstr := [8238] @ ustr ''ok''\<rparr>"





subsection \<open>Notions of the round trip\<close>

text \<open>A string in which no backslash stands directly before the letter \<open>n\<close>, \<open>r\<close>
  or \<open>t\<close>.\<close>

fun backslash_safe :: "ustring \<Rightarrow> bool" where
  "backslash_safe [] = True"
| "backslash_safe [c] = True"
| "backslash_safe (c # d # s) =
     (\<not> (c = 92 \<and> (d = 110 \<or> d = 114 \<or> d = 116)) \<and> backslash_safe (d # s))"

text \<open>The escape of one character, with the escapes of the quote, the line feed, the
  carriage return and the tab switched on or off: the stages between an escaped string and
  the string itself.\<close>

definition esc :: "bool \<Rightarrow> bool \<Rightarrow> bool \<Rightarrow> bool \<Rightarrow> nat \<Rightarrow> ustring" where
  "esc q n r t c =
     (if c = 92 then [92, 92]
      else if q \<and> c = 34 then [92, 34]
      else if n \<and> c = 10 then [92, 110]
      else if r \<and> c = 13 then [92, 114]
      else if t \<and> c = 9 then [92, 116]
      else [c])"

abbreviation escs :: "ustring \<Rightarrow> ustring" where
  "escs s \<equiv> concat (map (esc True True True True) s)"

text \<open>No backslash of \<open>s\<close> stands before a character whose escape under \<open>f\<close> starts
  with \<open>x\<close>.\<close>

fun adjacent_ok :: "nat \<Rightarrow> (nat \<Rightarrow> ustring) \<Rightarrow> ustring \<Rightarrow> bool" where
  "adjacent_ok x f [] = True"
| "adjacent_ok x f [c] = True"
| "adjacent_ok x f (c # d # s) = ((c = 92 \<longrightarrow> hd (f d) \<noteq> x) \<and> adjacent_ok x f (d # s))"

definition no_linebreak :: "ustring \<Rightarrow> bool" where
  "no_linebreak s = list_all (\<lambda>c. \<not> is_linebreak c) s"

text \<open>A value that the serializer can write: backslash-safe, and with no line boundary
  other than the line feed and the carriage return, which are escaped.\<close>

definition text_ok :: "ustring \<Rightarrow> bool" where
  "text_ok m = (backslash_safe m \<and> list_all (\<lambda>c. is_linebreak c \<longrightarrow> c = 10 \<or> c = 13) m)"

text \<open>A translator comment that the parser reads back as it is: a stripped line that
  starts with \<open>#\<close> and with none of the markers of the other comment kinds.\<close>

definition wf_comment :: "ustring \<Rightarrow> bool" where
  "wf_comment c =
     (startswith c (ustr ''#'') \<and> \<not> startswith c (ustr ''#,'') \<and> \<not> startswith c (ustr ''#:'')
      \<and> \<not> startswith c (ustr ''#.'') \<and> \<not> startswith c (ustr ''#~'')
      \<and> no_linebreak c \<and> strip c = c)"

definition wf_extracted :: "ustring \<Rightarrow> bool" where
  "wf_extracted x = (no_linebreak x \<and> strip x = x)"

text \<open>A location is one token: not empty and without whitespace.\<close>

definition wf_location :: "ustring \<Rightarrow> bool" where
  "wf_location l = (l \<noteq> [] \<and> list_all (\<lambda>c. \<not> is_space c) l)"

definition wf_flag :: "ustring \<Rightarrow> bool" where
  "wf_flag f = (44 \<notin> set f \<and> no_linebreak f \<and> strip f = f)"

text \<open>An entry that the file format can represent and the serializer writes in full: it
  is not obsolete (the serializer writes neither the obsolete state nor the comments that
  start with \<open>#~\<close>), and its parts are as above.\<close>

definition wf_entry :: "po_entry \<Rightarrow> bool" where
  "wf_entry e =
     (\<not> is_obsolete e
      \<and> list_all wf_comment (comments e)
      \<and> list_all wf_extracted (extracted_comments e)
      \<and> list_all wf_location (locations e)
      \<and> list_all wf_flag (flags e)
      \<and> text_ok (msgid e) \<and> text_ok (msgstr e))"

text \<open>The tuple of an entry that a round trip is to reproduce.\<close>

definition entry_tuple ::
  "po_entry \<Rightarrow> ustring \<times> ustring \<times> ustring list \<times> ustring list \<times> ustring list \<times> ustring list \<times> bool" where
  "entry_tuple e =
     (msgid e, msgstr e, flags e, locations e, comments e, extracted_comments e, is_obsolete e)"

text \<open>An entry without the fields that the tuple leaves out, and the entry under
  construction seen this way.\<close>

definition core :: "po_entry \<Rightarrow> po_entry" where
  "core e = e\<lparr>is_fuzzy := False, is_header := False, line_start := 0\<rparr>"

definition view :: "po_entry option \<Rightarrow> po_entry" where
  "view co = core (case co of None \<Rightarrow> new_entry 0 | Some c \<Rightarrow> c)"

text \<open>The lines that \<open>serialize_entry\<close> joins, and the lines of a serialized
  catalog.\<close>

definition entry_lines :: "po_entry \<Rightarrow> ustring list" where
  "entry_lines entry =
     filter (\<lambda>c. \<not> startswith c (ustr ''#~'')) (comments entry)
     @ map (\<lambda>ec. ustr ''#. '' @ ec) (extracted_comments entry)
     @ (if locations entry \<noteq> [] then pack_locations (ustr ''#:'') (locations entry) else [])
     @ (if flags entry \<noteq> [] then [ustr ''#, '' @ join (ustr '', '') (flags entry)] else [])
     @ serialize_msgid (msgid entry)
     @ serialize_msgstr (msgstr entry)"

fun all_lines :: "po_entry list \<Rightarrow> ustring list" where
  "all_lines [] = [[]]"
| "all_lines [e] = entry_lines e"
| "all_lines (e # e' # es) = entry_lines e @ [] # all_lines (e' # es)"

text \<open>Locations, each after a space.\<close>

abbreviation spaced :: "ustring list \<Rightarrow> ustring" where
  "spaced g \<equiv> concat (map (\<lambda>x. 32 # x) g)"

text \<open>Sample entries: one with every kind of line, and one whose comment and flag the
  file format cannot hold.\<close>

definition sample_entry :: po_entry where
  "sample_entry = (new_entry 0)\<lparr>
     msgid := ustr ''Hello %s,'' @ [10] @ ustr ''bye'',
     msgstr := ustr ''C:'' @ [92] @ ustr ''dir '' @ [34, 9],
     comments := [ustr ''# translator note''],
     extracted_comments := [ustr ''module: sale''],
     locations := [ustr ''a.py:1'', ustr ''b.py:22''],
     flags := [ustr ''fuzzy'', ustr ''python-format'']\<rparr>"

definition loose_entry :: po_entry where
  "loose_entry = (new_entry 0)\<lparr>msgid := ustr ''Save'', msgstr := ustr ''Enregistrer'',
     comments := [ustr ''note''], flags := [ustr ''a,b'']\<rparr>"

section \<open>Evaluation\<close>

text \<open>The definitions that the simplifier unfolds to run the model on an input.\<close>

lemmas string_defs = ustr_def is_space_def lstrip_def rstrip_def strip_def startswith_def
  endswith_def

lemmas parse_defs = v_parse_def parse_def splitlines_def is_linebreak_def v_parse_line_def
  parse_line_def v_parse_string_def parse_string_def unescape_def Let_def

lemmas merge_defs = merge_entries_def build_map_def new_entry_def match_revision_date_def
  non_header_def stamp_header_def Let_def

lemmas check_defs = check_entry_def check_format_specifiers_def check_arabic_specific_def
  check_bidi_issues_def check_whitespace_def mk_issue_def RTL_MARKS_def positional_specs_def
  match_spec_def is_conversion_def spec_names_def format_findings_def Let_def v_new_entry_def

section \<open>Escaping\<close>

text \<open>Escaping works character by character, and each of the five substitutions of the
  unescaping undoes one escape, provided no backslash of the string stands before a
  letter that the substitution reads as the second half of an escape.\<close>

lemma replace_char: "py_replace [a] new s = concat (map (\<lambda>c. if c = a then new else [c]) s)"
  by (induction s) (auto simp: startswith_def)

lemma concat_map_concat_map:
  "concat (map f (concat (map g s))) = concat (map (\<lambda>c. concat (map f (g c))) s)"
  by (induction s) auto

lemma escape_concat: "escape s = concat (map (esc True True True True) s)"
proof -
  have "(\<lambda>c. concat (map (\<lambda>c. if c = 9 then [92, 116] else [c])
          (concat (map (\<lambda>c. if c = 13 then [92, 114] else [c])
            (concat (map (\<lambda>c. if c = 10 then [92, 110] else [c])
              (concat (map (\<lambda>c. if c = 34 then [92, 34] else [c])
                (if c = 92 then [92, 92] else [c])))))))))
    = esc True True True True"
    by (auto simp: esc_def fun_eq_iff)
  then show ?thesis
    by (simp add: escape_def Let_def replace_char concat_map_concat_map)
qed

lemma replace2_other: "c \<noteq> a \<Longrightarrow> py_replace [a, b] new (c # cs) = c # py_replace [a, b] new cs"
  by (simp add: startswith_def)

lemma replace2_match: "py_replace [a, b] new (a # b # cs) = new @ py_replace [a, b] new cs"
  by (simp add: startswith_def)

lemma replace2_second: "d \<noteq> b \<Longrightarrow> py_replace [a, b] new (a # d # cs) = a # py_replace [a, b] new (d # cs)"
  by (simp add: startswith_def)

lemma replace2_single: "py_replace [a, b] new [c] = [c]"
  by (simp add: startswith_def)

lemma adjacent_ok_tail: "adjacent_ok x f (c # s) \<Longrightarrow> adjacent_ok x f s"
  by (cases s) auto

lemma replace_stage:
  assumes x: "x \<noteq> 92" and y: "y \<noteq> 92"
    and f: "\<And>c. f c = (if c = y then [92, x] else g c)"
    and g92: "g 92 = [92, 92]" and gy: "g y = [y]"
    and g: "\<And>c. c \<noteq> 92 \<Longrightarrow> c \<noteq> y \<Longrightarrow> g c = [c] \<or> (\<exists>z. g c = [92, z] \<and> z \<noteq> x \<and> z \<noteq> 92)"
  shows "adjacent_ok x f s \<Longrightarrow> py_replace [92, x] [y] (concat (map f s)) = concat (map g s)"
proof (induction s)
  case Nil
  then show ?case by simp
next
  case (Cons c s)
  then have ih: "py_replace [92, x] [y] (concat (map f s)) = concat (map g s)"
    by (auto dest: adjacent_ok_tail)
  have nonempty: "f d \<noteq> []" for d
    using f [of d] g [of d] g92 by (cases "d = y"; cases "d = 92") auto
  consider (restored) "c = y" | (backslash) "c = 92" | (plain) "c \<noteq> y" "c \<noteq> 92" "g c = [c]"
    | (escaped) z where "c \<noteq> y" "c \<noteq> 92" "g c = [92, z]" "z \<noteq> x" "z \<noteq> 92"
    using g [of c] by blast
  then show ?case
  proof cases
    case restored
    then have "f c = [92, x]" "g c = [y]"
      using f [of c] gy by auto
    then show ?thesis
      by (simp add: ih replace2_match del: py_replace.simps)
  next
    case backslash
    have fc: "f c = [92, 92]" "g c = [92, 92]"
      using backslash y f [of c] g92 by auto
    have "py_replace [92, x] [y] (92 # concat (map f s)) = 92 # concat (map g s)"
    proof (cases s)
      case Nil
      then show ?thesis by (simp add: replace2_single del: py_replace.simps)
    next
      case (Cons d s')
      with Cons.prems backslash have "hd (f d) \<noteq> x" by simp
      then obtain h t where "f d = h # t" "h \<noteq> x"
        using nonempty [of d] by (cases "f d") auto
      then have "concat (map f s) = h # (t @ concat (map f s'))"
        by (simp add: Cons)
      with \<open>h \<noteq> x\<close> ih show ?thesis
        by (simp add: replace2_second del: py_replace.simps)
    qed
    then show ?thesis
      using x by (simp add: fc replace2_second del: py_replace.simps)
  next
    case plain
    then have "f c = [c]"
      using f [of c] by auto
    with plain show ?thesis
      by (simp add: ih replace2_other del: py_replace.simps)
  next
    case (escaped z)
    then have "f c = [92, z]"
      using f [of c] by auto
    with escaped show ?thesis
      by (simp add: ih replace2_other replace2_second del: py_replace.simps)
  qed
qed

lemma replace_backslashes:
  "py_replace [92, 92] [92] (concat (map (esc False False False False) s)) = s"
proof (induction s)
  case Nil
  then show ?case by simp
next
  case (Cons c s)
  then show ?case
    by (cases "c = 92") (simp_all add: esc_def replace2_match replace2_other del: py_replace.simps)
qed

lemma adjacent_ok_quote: "adjacent_ok 34 (esc True True True True) s"
  by (induction s rule: backslash_safe.induct) (auto simp: esc_def)

lemma adjacent_ok_n: "backslash_safe s \<Longrightarrow> adjacent_ok 110 (esc False True True True) s"
  by (induction s rule: backslash_safe.induct) (auto simp: esc_def)

lemma adjacent_ok_t: "backslash_safe s \<Longrightarrow> adjacent_ok 116 (esc False False True True) s"
  by (induction s rule: backslash_safe.induct) (auto simp: esc_def)

lemma adjacent_ok_r: "backslash_safe s \<Longrightarrow> adjacent_ok 114 (esc False False True False) s"
  by (induction s rule: backslash_safe.induct) (auto simp: esc_def)

lemma unescape_concat:
  assumes "backslash_safe s"
  shows "unescape (concat (map (esc True True True True) s)) = s"
proof -
  have 1: "py_replace [92, 34] [34] (concat (map (esc True True True True) s))
      = concat (map (esc False True True True) s)"
    by (rule replace_stage [OF _ _ _ _ _ _ adjacent_ok_quote]) (auto simp: esc_def)
  have 2: "py_replace [92, 110] [10] (concat (map (esc False True True True) s))
      = concat (map (esc False False True True) s)"
    by (rule replace_stage [OF _ _ _ _ _ _ adjacent_ok_n [OF assms]]) (auto simp: esc_def)
  have 3: "py_replace [92, 116] [9] (concat (map (esc False False True True) s))
      = concat (map (esc False False True False) s)"
    by (rule replace_stage [OF _ _ _ _ _ _ adjacent_ok_t [OF assms]]) (auto simp: esc_def)
  have 4: "py_replace [92, 114] [13] (concat (map (esc False False True False) s))
      = concat (map (esc False False False False) s)"
    by (rule replace_stage [OF _ _ _ _ _ _ adjacent_ok_r [OF assms]]) (auto simp: esc_def)
  show ?thesis
    by (simp add: unescape_def Let_def 1 2 3 4 replace_backslashes del: py_replace.simps)
qed

lemma unescape_escape: "backslash_safe s \<Longrightarrow> unescape (escape s) = s"
  by (simp add: escape_concat unescape_concat)

text \<open>
  C1.  Unescaping an escaped string should give the string back.  The converter unescapes
  by five global substitutions, one after the other, and not by one scan: on the string
  made of a backslash and the letter \<open>n\<close> the escaped form is backslash, backslash,
  \<open>n\<close>, whose last two characters the second substitution reads as an escaped line
  feed.  The result is a backslash and a line feed, not the string escaped.
\<close>

theorem parse_string_escape_backslash_n:
  "escape [92, 110] = [92, 92, 110]
   \<and> parse_string ([34] @ escape [92, 110] @ [34]) = [92, 10]
   \<and> parse_string ([34] @ escape [92, 110] @ [34]) \<noteq> [92, 110]"
  by (simp add: escape_def parse_string_def unescape_def strip_def lstrip_def rstrip_def
      is_space_def startswith_def endswith_def)

section \<open>Parsing never raises?\<close>

text \<open>
  C3.  The parser should return a catalog and the parse errors for every text.  Both
  parsers assign the value of a \<open>msgstr\<close> line to an attribute of \<open>current\<close>
  without testing it; when the text starts with such a line, \<open>current\<close> is \<open>None\<close>
  and the assignment raises \<open>AttributeError\<close>, which nothing catches.
\<close>

theorem parse_msgstr_without_entry_raises:
  "v_parse (ustr ''msgstr '' @ [34, 120, 34] @ [10]) = Inl AttributeError
   \<and> parse (ustr ''msgstr '' @ [34, 120, 34] @ [10]) = Inl AttributeError"
  by (simp add: string_defs parse_defs)

text \<open>On that text neither parser returns a catalog.\<close>

theorem parse_msgstr_without_entry_raises_witness:
  "isl (v_parse (ustr ''msgstr '' @ [34, 120, 34] @ [10]))
   \<and> isl (parse (ustr ''msgstr '' @ [34, 120, 34] @ [10]))"
  using parse_msgstr_without_entry_raises by simp

section \<open>The index of the merge\<close>

lemma first_occurrences_snoc:
  "first_occurrences (ks @ [k]) = (if k \<in> set ks then first_occurrences ks else first_occurrences ks @ [k])"
  by (simp add: first_occurrences_def)

lemma set_first_occurrences: "set (first_occurrences ks) = set ks"
  by (simp add: first_occurrences_def)

lemma distinct_first_occurrences: "distinct (first_occurrences ks)"
  by (simp add: first_occurrences_def)

lemma index_keys:
  "map fst (foldl (\<lambda>d e. AList.update (msgid e) e d) [] es) = first_occurrences (map msgid es)"
proof (induction es rule: rev_induct)
  case Nil
  then show ?case by (simp add: first_occurrences_def)
next
  case (snoc e es)
  then show ?case
    by (simp add: update_keys first_occurrences_snoc set_first_occurrences)
qed

lemma index_lookup:
  "map_of (foldl (\<lambda>d e. AList.update (msgid e) e d) [] es) k = find (\<lambda>e. msgid e = k) (rev es)"
proof (induction es rule: rev_induct)
  case Nil
  then show ?case by simp
next
  case (snoc e es)
  then show ?case by (simp add: update_conv')
qed

text \<open>
  C5, as the code has it.  The index of a catalog leaves out the header entries and
  nothing else, so obsolete entries are indexed.  Its keys are the distinct \<open>msgid\<close>s
  in the order of their first occurrence, and the entry stored for a \<open>msgid\<close> is the
  last entry that has it.
\<close>

theorem build_map_index:
  "map fst (build_map es) = first_occurrences (map msgid (non_header es))
   \<and> map_of (build_map es) k = find (\<lambda>e. msgid e = k) (rev (non_header es))"
  by (simp add: build_map_def non_header_def index_keys index_lookup)

text \<open>
  C5 as it is stated fails: of two entries \<open>Save\<close> the index holds the second one,
  where the first occurrence among the entries that are neither header nor obsolete is
  the first one; and an obsolete entry is indexed.
\<close>

theorem build_map_last_wins:
  "map_of (build_map [save_a, save_b]) (ustr ''Save'') = Some save_b
   \<and> find (\<lambda>e. msgid e = ustr ''Save'')
        (filter (\<lambda>e. \<not> is_header e \<and> \<not> is_obsolete e) [save_a, save_b]) = Some save_a
   \<and> save_a \<noteq> save_b
   \<and> map_of (build_map [old_entry]) (ustr ''Old'') = Some old_entry
   \<and> is_obsolete old_entry"
  by (simp add: build_map_def save_a_def save_b_def old_entry_def new_entry_def ustr_def)

section \<open>Merging a catalog with itself\<close>

lemma merge_new_present:
  assumes "\<forall>k \<in> fst ` set items. k \<in> fst ` set base_map"
  shows "map fst (fst (merge_new items base_map r)) = map fst base_map
     \<and> preserved (snd (merge_new items base_map r)) = preserved r + length items
     \<and> added (snd (merge_new items base_map r)) = added r
     \<and> marked_obsolete (snd (merge_new items base_map r)) = marked_obsolete r"
  using assms
proof (induction items arbitrary: base_map r)
  case Nil
  then show ?case by simp
next
  case (Cons item items)
  obtain k new_e where item: "item = (k, new_e)" by (cases item)
  from Cons.prems item have "k \<in> fst ` set base_map" by simp
  then obtain b where b: "map_of base_map k = Some b"
    by (metis domD dom_map_of_conv_image_fst)
  define b' where "b' = b\<lparr>locations := (if locations new_e \<noteq> [] then locations new_e else locations b)\<rparr>"
  have keys: "map fst (AList.update k b' base_map) = map fst base_map"
    using \<open>k \<in> fst ` set base_map\<close> by (simp add: update_keys)
  have "fst ` set (AList.update k b' base_map) = fst ` set base_map"
    using \<open>k \<in> fst ` set base_map\<close> by (simp add: dom_update insert_absorb)
  then have "\<forall>k' \<in> fst ` set items. k' \<in> fst ` set (AList.update k b' base_map)"
    using Cons.prems by simp
  from Cons.IH [OF this, of "r\<lparr>merged := merged r @ [b'], preserved := preserved r + 1\<rparr>"]
  show ?case
    using keys by (simp add: item b b'_def Let_def)
qed

lemma merge_obsolete_present:
  assumes "\<forall>k \<in> fst ` set items. k \<in> fst ` set new_map"
  shows "merge_obsolete items new_map r = r"
  using assms
proof (induction items arbitrary: r)
  case Nil
  then show ?case by simp
next
  case (Cons item items)
  obtain k e where item: "item = (k, e)" by (cases item)
  with Cons.prems have "map_of new_map k \<noteq> None"
    by (simp add: map_of_eq_None_iff)
  with Cons item show ?case by simp
qed

lemma merge_self_counters:
  "added (merge_entries now c c) = 0 \<and> marked_obsolete (merge_entries now c c) = 0
   \<and> preserved (merge_entries now c c) = card (msgid ` set (non_header c))"
proof -
  define bm where "bm = build_map c"
  define r0 where "r0 = \<lparr>merged = (case map_option (\<lambda>h. h\<lparr>msgstr := sub_revision_date now (msgstr h)\<rparr>)
       (find is_header c) of None \<Rightarrow> [] | Some h \<Rightarrow> [h]), preserved = 0, added = 0, marked_obsolete = 0\<rparr>"
  obtain bm' r1 where m: "merge_new bm bm r0 = (bm', r1)"
    by (cases "merge_new bm bm r0")
  have p: "map fst bm' = map fst bm" "preserved r1 = length bm" "added r1 = 0" "marked_obsolete r1 = 0"
  proof -
    have r0f: "preserved r0 = 0" "added r0 = 0" "marked_obsolete r0 = 0"
      by (simp_all add: r0_def)
    have "\<forall>k \<in> fst ` set bm. k \<in> fst ` set bm" by simp
    from merge_new_present [OF this, of r0, unfolded m]
    show "map fst bm' = map fst bm" "preserved r1 = length bm" "added r1 = 0"
      "marked_obsolete r1 = 0"
      by (simp_all add: r0f)
  qed
  have "fst ` set bm' = fst ` set bm"
    using p(1) by (simp flip: set_map)
  then have "\<forall>k \<in> fst ` set bm'. k \<in> fst ` set bm"
    by simp
  then have o: "merge_obsolete bm' bm r1 = r1"
    by (rule merge_obsolete_present)
  have res: "merge_entries now c c = r1"
    unfolding merge_entries_def Let_def bm_def [symmetric] r0_def [symmetric]
    by (simp add: m o)
  have "length bm = length (map fst bm)" by simp
  also have "\<dots> = card (set (map msgid (non_header c)))"
    unfolding bm_def build_map_def index_keys non_header_def
    by (metis distinct_card distinct_first_occurrences set_first_occurrences)
  finally have "length bm = card (msgid ` set (non_header c))" by simp
  then show ?thesis
    by (simp add: res p)
qed

lemma update_absent: "k \<notin> fst ` set al \<Longrightarrow> AList.update k v al = al @ [(k, v)]"
  by (induction al) auto

lemma index_distinct:
  "distinct (map msgid es) \<Longrightarrow>
     foldl (\<lambda>d e. AList.update (msgid e) e d) [] es = map (\<lambda>e. (msgid e, e)) es"
proof (induction es rule: rev_induct)
  case Nil
  then show ?case by simp
next
  case (snoc e es)
  then have "msgid e \<notin> fst ` set (map (\<lambda>e. (msgid e, e)) es)"
    by (auto simp: image_iff)
  with snoc show ?case
    by (simp add: update_absent)
qed

lemma merge_new_same:
  assumes "\<forall>(k, e) \<in> set items. map_of bm k = Some e"
  shows "merge_new items bm r
     = (bm, r\<lparr>merged := merged r @ map snd items, preserved := preserved r + length items\<rparr>)"
  using assms
proof (induction items arbitrary: r)
  case Nil
  then show ?case by simp
next
  case (Cons item items)
  obtain k e where item: "item = (k, e)" by (cases item)
  with Cons.prems have b: "map_of bm k = Some e" by simp
  have same: "e\<lparr>locations := (if locations e \<noteq> [] then locations e else locations e)\<rparr> = e"
    by simp
  have upd: "AList.update k e bm = bm"
    using b by (rule update_triv)
  from Cons.prems have "\<forall>(k, e) \<in> set items. map_of bm k = Some e" by simp
  from Cons.IH [OF this] show ?case
    by (simp add: item b same upd)
qed

lemma merge_self_distinct:
  assumes "distinct (map msgid (non_header c))"
  shows "merged (merge_entries now c c)
     = (case find is_header c of None \<Rightarrow> [] | Some h \<Rightarrow> [stamp_header now h]) @ non_header c"
proof -
  define bm where "bm = map (\<lambda>e. (msgid e, e)) (non_header c)"
  have bm: "build_map c = bm"
    using assms by (simp add: build_map_def bm_def non_header_def index_distinct)
  have d: "distinct (map fst bm)"
    using assms by (simp add: bm_def comp_def)
  then have same: "\<forall>(k, e) \<in> set bm. map_of bm k = Some e"
    by auto
  have o: "merge_obsolete bm bm r = r" for r
    by (rule merge_obsolete_present) simp
  have h: "find is_header c = Some x \<Longrightarrow> is_header x" for x
    by (auto simp: find_Some_iff)
  have snd: "map snd bm = non_header c"
    by (simp add: bm_def comp_def)
  show ?thesis
    unfolding merge_entries_def Let_def bm
    by (auto simp: merge_new_same [OF same] o snd stamp_header_def h split: option.splits)
qed

lemma header_first:
  assumes "filter is_header (tl c) = []"
  shows "(case find is_header c of None \<Rightarrow> [] | Some h \<Rightarrow> [stamp_header now h]) @ non_header c
     = map (stamp_header now) c"
proof (cases c)
  case Nil
  then show ?thesis by (simp add: non_header_def)
next
  case (Cons x t)
  with assms have t: "\<forall>e \<in> set t. \<not> is_header e"
    by (simp add: filter_empty_conv)
  then have "filter (\<lambda>e. \<not> is_header e) t = t" "map (stamp_header now) t = t"
    "find is_header t = None"
    by (simp_all add: stamp_header_def find_None_iff map_idI)
  then show ?thesis
    by (simp add: Cons non_header_def stamp_header_def)
qed

text \<open>
  C4, as the code has it.  Merging a catalog with itself adds nothing and marks nothing
  obsolete, and the number of preserved entries is the number of distinct \<open>msgid\<close>s of
  the entries that are not headers.  When these \<open>msgid\<close>s are pairwise distinct and no
  entry after the first is a header, the merged catalog is the catalog itself, with the
  revision-date substitution applied to the header, and every entry that is not a header
  is counted as preserved.
\<close>

theorem merge_with_itself:
  "added (merge_entries now c c) = 0
   \<and> marked_obsolete (merge_entries now c c) = 0
   \<and> preserved (merge_entries now c c) = card (msgid ` set (non_header c))
   \<and> (distinct (map msgid (non_header c)) \<and> filter is_header (tl c) = []
        \<longrightarrow> merged (merge_entries now c c) = map (stamp_header now) c
          \<and> preserved (merge_entries now c c) = length (non_header c))"
proof -
  have "card (msgid ` set (non_header c)) = length (non_header c)"
    if "distinct (map msgid (non_header c))"
    using that by (metis distinct_card length_map set_map)
  then show ?thesis
    by (simp add: merge_self_counters merge_self_distinct header_first)
qed

text \<open>The theorem at a catalog of a header, an entry and an obsolete entry.\<close>

theorem merge_with_itself_witness:
  "distinct (map msgid (non_header [sample_header, save_a, old_entry]))
   \<and> filter is_header (tl [sample_header, save_a, old_entry]) = []
   \<and> merged (merge_entries sample_now [sample_header, save_a, old_entry]
        [sample_header, save_a, old_entry]) = [sample_header, save_a, old_entry]
   \<and> preserved (merge_entries sample_now [sample_header, save_a, old_entry]
        [sample_header, save_a, old_entry]) = 2"
proof -
  have 1: "distinct (map msgid (non_header [sample_header, save_a, old_entry]))"
    "filter is_header (tl [sample_header, save_a, old_entry]) = []"
    by (simp_all add: non_header_def sample_header_def save_a_def old_entry_def new_entry_def
          ustr_def)
  have 2: "map (stamp_header sample_now) [sample_header, save_a, old_entry]
      = [sample_header, save_a, old_entry]"
    by (simp add: string_defs merge_defs sample_header_def save_a_def old_entry_def
          sample_now_def)
  have 3: "length (non_header [sample_header, save_a, old_entry]) = 2"
    by (simp add: non_header_def sample_header_def save_a_def old_entry_def new_entry_def)
  show ?thesis
    using merge_with_itself [of sample_now "[sample_header, save_a, old_entry]"] 1 2 3
    by simp
qed

text \<open>
  C4 as it is stated fails on a catalog with the same \<open>msgid\<close> twice: one entry is
  preserved, not two, and the merged catalog has one entry, the second.
\<close>

theorem merge_duplicates_counterexample:
  "preserved (merge_entries sample_now [save_a, save_b] [save_a, save_b]) = 1
   \<and> length (non_header [save_a, save_b]) = 2
   \<and> merged (merge_entries sample_now [save_a, save_b] [save_a, save_b]) = [save_b]"
  by (simp add: string_defs merge_defs save_a_def save_b_def)

section \<open>The header of the merged catalog\<close>

lemma last_backslash_n_None: "92 \<notin> set s \<Longrightarrow> last_backslash_n s = None"
  by (induction s) (auto simp: startswith_def)

lemma match_revision_date_None: "92 \<notin> set s \<Longrightarrow> match_revision_date s = None"
proof -
  assume a: "92 \<notin> set s"
  have "92 \<notin> set (takeWhile (\<lambda>c. c \<noteq> 10) (drop 17 s))"
    using a by (meson in_set_dropD set_takeWhileD)
  then show ?thesis
    by (simp add: match_revision_date_def last_backslash_n_None)
qed

lemma sub_revision_date_no_backslash: "92 \<notin> set s \<Longrightarrow> sub_revision_date now s = s"
proof (induction s)
  case Nil
  then show ?case by simp
next
  case (Cons c cs)
  then have "match_revision_date (c # cs) = None"
    by (intro match_revision_date_None) simp
  with Cons show ?case by simp
qed

text \<open>
  C6.  The header of the merged catalog should be the header of the base catalog with the
  revision date rewritten to the current time.  The pattern of the substitution ends in a
  backslash and the letter \<open>n\<close>, the escaped form of a line feed, but the \<open>msgstr\<close>
  of a parsed header is unescaped and its lines end in line feeds: the pattern does not
  match, and the header keeps the old date.
\<close>

theorem merge_keeps_old_revision_date:
  "merged (merge_entries sample_now [sample_header] []) = [sample_header]
   \<and> contains (msgstr sample_header) (ustr ''PO-Revision-Date: 2020-01-01 00:00+0000'')
   \<and> \<not> contains (msgstr (hd (merged (merge_entries sample_now [sample_header] []))))
         sample_now"
  by (simp add: string_defs merge_defs sample_header_def sample_now_def)

section \<open>Format specifiers\<close>

lemma take_length_append: "take (length xs) (xs @ ys) = xs"
  by simp

lemma takeWhile_until: "a \<notin> set xs \<Longrightarrow> takeWhile (\<lambda>c. c \<noteq> a) (xs @ a # ys) = xs"
  by (induction xs) auto

lemma dropWhile_until: "a \<notin> set xs \<Longrightarrow> dropWhile (\<lambda>c. c \<noteq> a) (xs @ a # ys) = a # ys"
  by (induction xs) auto

lemma is_spec_token_positional: "is_conversion c \<Longrightarrow> is_spec_token [37, c]"
  by (simp add: is_spec_token_def)

lemma is_spec_token_named:
  "is_conversion c \<Longrightarrow> name \<noteq> [] \<Longrightarrow> 41 \<notin> set name \<Longrightarrow> is_spec_token (37 # 40 # name @ [41, c])"
  by (simp add: is_spec_token_def)

lemma is_spec_token_cases:
  assumes "is_spec_token x"
  obtains c where "is_conversion c" "x = [37, c]"
  | c name where "is_conversion c" "name \<noteq> []" "41 \<notin> set name" "x = 37 # 40 # name @ [41, c]"
  using assms unfolding is_spec_token_def Let_def
  by (metis append_Cons append_Nil)

lemma match_spec_token: "match_spec s = Some n \<Longrightarrow> is_spec_token (take n s)"
proof -
  assume m: "match_spec s = Some n"
  then obtain rest where s: "s = 37 # rest"
    by (cases s) (auto simp: match_spec_def startswith_def split: if_splits)
  show ?thesis
  proof (cases "startswith rest [40]")
    case True
    then obtain r2 where rest: "rest = 40 # r2"
      by (cases rest) (auto simp: startswith_def)
    define name where "name = takeWhile (\<lambda>c. c \<noteq> 41) r2"
    define after where "after = dropWhile (\<lambda>c. c \<noteq> 41) r2"
    from m s rest have c: "name \<noteq> []" "startswith after [41]" "tl after \<noteq> []"
      "is_conversion (hd (tl after))" "n = length name + 4"
      by (auto simp: match_spec_def startswith_def Let_def name_def after_def split: if_splits)
    then obtain c more where after: "after = 41 # c # more" "is_conversion c"
      by (cases after; cases "tl after") (auto simp: startswith_def)
    have r2: "r2 = name @ 41 # c # more"
      using after by (metis name_def after_def takeWhile_dropWhile_id)
    have nm: "41 \<notin> set name"
      unfolding name_def by (auto dest: set_takeWhileD)
    have "s = (37 # 40 # name @ [41, c]) @ more" "n = length (37 # 40 # name @ [41, c])"
      using c by (simp_all add: s rest r2)
    then have "take n s = 37 # 40 # name @ [41, c]"
      by (simp only: take_length_append)
    with c after nm show ?thesis
      by (simp add: is_spec_token_named)
  next
    case False
    with m s obtain c more where "rest = c # more" "is_conversion c" "n = 2"
      by (cases rest) (auto simp: match_spec_def startswith_def Let_def split: if_splits)
    then show ?thesis
      by (simp add: s is_spec_token_positional)
  qed
qed

lemma findall_spec_tokens: "x \<in> set (findall_spec s) \<Longrightarrow> is_spec_token x"
proof (induction s rule: findall_spec.induct)
  case 1
  then show ?case by simp
next
  case (2 c cs)
  show ?case
  proof (cases "match_spec (c # cs)")
    case None
    with 2 show ?thesis by simp
  next
    case (Some n)
    with 2 show ?thesis by (auto dest: match_spec_token)
  qed
qed

lemma search_name_token:
  assumes "is_spec_token x" and "40 \<in> set x"
  shows "startswith x [37, 40] \<and> search_name x = Some (take (length x - 4) (drop 2 x))"
  using assms(1)
proof (cases rule: is_spec_token_cases)
  case (1 c)
  with assms(2) show ?thesis by (auto simp: is_conversion_def)
next
  case (2 c name)
  then have "takeWhile (\<lambda>c. c \<noteq> 41) (name @ [41, c]) = name"
    "dropWhile (\<lambda>c. c \<noteq> 41) (name @ [41, c]) = [41, c]"
    by (simp_all add: takeWhile_until dropWhile_until)
  with 2 show ?thesis by (simp add: startswith_def)
qed

lemma token_without_paren:
  assumes "is_spec_token x" and "40 \<notin> set x"
  shows "\<not> startswith x [37, 40]"
  using assms by (cases rule: is_spec_token_cases) (auto simp: startswith_def)

lemma named_specs_tokens:
  "\<forall>x\<in>set specs. is_spec_token x \<Longrightarrow> named_specs specs = Inr (spec_names specs)"
proof (induction specs)
  case Nil
  then show ?case by (simp add: spec_names_def)
next
  case (Cons x xs)
  then have ih: "named_specs xs = Inr (spec_names xs)" and tok: "is_spec_token x"
    by simp_all
  show ?case
  proof (cases "40 \<in> set x")
    case True
    with tok ih search_name_token [OF tok True] show ?thesis
      by (simp add: spec_names_def)
  next
    case False
    with tok ih token_without_paren [OF tok False] show ?thesis
      by (simp add: spec_names_def)
  qed
qed

lemma named_specs_findall: "named_specs (findall_spec s) = Inr (spec_names (findall_spec s))"
  by (rule named_specs_tokens) (simp add: findall_spec_tokens)

lemma check_format_specifiers_eq:
  "check_format_specifiers e (v_line_start e) = Inr (format_findings e)"
proof -
  have "(if v_msgstr e \<noteq> [] then findall_spec (v_msgstr e) else []) = findall_spec (v_msgstr e)"
    by simp
  then show ?thesis
    unfolding check_format_specifiers_def format_findings_def Let_def
    by (simp add: named_specs_findall)
qed

lemma format_findings_filter:
  "filter is_format_finding (format_findings e) = format_findings e"
  "filter is_direction_finding (format_findings e) = []"
  "filter is_override_finding (format_findings e) = []"
  by (simp_all add: format_findings_def Let_def is_format_finding_def is_direction_finding_def is_override_finding_def
        mk_issue_def)

lemma check_entry_translated:
  assumes "\<not> v_is_obsolete e" and "v_msgstr e \<noteq> []"
  shows "check_entry arabic_name is_arabic strict e =
     Inr ((if v_is_fuzzy e
           then [mk_issue Warning (v_line_start e) FuzzyTranslation (take 60 (v_msgid e))]
           else [])
          @ (if ustr ''python-format'' \<in> set (v_flags e) then format_findings e else [])
          @ (if is_arabic then check_arabic_specific arabic_name e (v_line_start e) else [])
          @ check_bidi_issues e (v_line_start e)
          @ check_whitespace e (v_line_start e))"
  using assms by (simp add: check_entry_def check_format_specifiers_eq Let_def)

lemma other_findings_filter:
  "filter is_format_finding (check_arabic_specific an e l) = []"
  "filter is_format_finding (check_bidi_issues e l) = []"
  "filter is_format_finding (check_whitespace e l) = []"
  "filter is_direction_finding (check_bidi_issues e l) = []"
  "filter is_direction_finding (check_whitespace e l) = []"
  "filter is_override_finding (check_arabic_specific an e l) = []"
  "filter is_override_finding (check_whitespace e l) = []"
  by (simp_all add: check_arabic_specific_def check_bidi_issues_def check_whitespace_def
        Let_def is_format_finding_def is_direction_finding_def is_override_finding_def mk_issue_def)

lemma format_example_specs:
  "findall_spec (v_msgid format_example) = [[37, 115], [37, 100]]"
  "findall_spec (v_msgstr format_example) = [[37, 115]]"
  by (simp_all add: string_defs check_defs format_example_def)

lemma format_example_errors:
  "\<exists>iss. check_entry arabic_name is_arabic strict format_example = Inr iss
     \<and> filter (\<lambda>i. severity i = Error) iss
         = [mk_issue Error 7 (FormatSpecifierMismatch 2 1) (ustr ''Hello %s, you have %d items'')]"
proof -
  have 1: "\<not> v_is_obsolete format_example" "v_msgstr format_example \<noteq> []"
    "ustr ''python-format'' \<in> set (v_flags format_example)" "v_line_start format_example = 7"
    "\<not> v_is_fuzzy format_example"
    by (simp_all add: format_example_def v_new_entry_def ustr_def)
  have 2: "format_findings format_example
      = [mk_issue Error 7 (FormatSpecifierMismatch 2 1) (ustr ''Hello %s, you have %d items'')]"
    by (simp add: string_defs check_defs format_example_def del: set_filter)
  have 3: "filter (\<lambda>i. severity i = Error) (check_arabic_specific arabic_name format_example 7) = []"
    by (simp add: check_arabic_specific_def format_example_def v_new_entry_def ustr_def
          RTL_MARKS_def mk_issue_def Let_def)
  have 4: "check_bidi_issues format_example 7 = []"
    by (simp add: check_bidi_issues_def format_example_def v_new_entry_def ustr_def)
  have 5: "filter (\<lambda>i. severity i = Error) (check_whitespace format_example 7) = []"
    by (simp add: check_whitespace_def Let_def mk_issue_def)
  show ?thesis
    using 3 5 by (simp add: check_entry_translated 1 2 4 mk_issue_def)
qed

text \<open>
  C8, as the code has it.  For an entry that is not obsolete, whose translation is not
  empty and which carries the flag \<open>python-format\<close>: every specifier found in the
  \<open>msgid\<close> and in the translation is a percent sign, an optional name in parentheses and
  a conversion character out of \<open>s d i f r o %\<close>; the check does not raise; and its
  findings about specifiers are an error with both counts when the numbers of specifiers
  without a name differ, followed by an error with the missing names when a name of the
  \<open>msgid\<close> does not occur in the translation.  For the \<open>msgid\<close>
  \<open>Hello %s, you have %d items\<close> and a translation without \<open>%d\<close> the only error is
  the one with the counts 2 and 1.
\<close>

theorem format_specifier_findings:
  assumes "\<not> v_is_obsolete e" and "v_msgstr e \<noteq> []"
    and "ustr ''python-format'' \<in> set (v_flags e)"
  shows "(\<forall>x \<in> set (findall_spec (v_msgid e)) \<union> set (findall_spec (v_msgstr e)). is_spec_token x)
     \<and> (\<exists>iss. check_entry arabic_name is_arabic strict e = Inr iss
            \<and> filter is_format_finding iss = format_findings e)
     \<and> (\<exists>iss. check_entry arabic_name is_arabic strict format_example = Inr iss
            \<and> filter (\<lambda>i. severity i = Error) iss
                = [mk_issue Error 7 (FormatSpecifierMismatch 2 1)
                     (ustr ''Hello %s, you have %d items'')])"
  using assms format_example_errors [of arabic_name is_arabic strict]
  by (auto simp: check_entry_translated findall_spec_tokens format_findings_filter
        other_findings_filter is_format_finding_def mk_issue_def)

text \<open>The theorem at the sample entry.\<close>

theorem format_specifier_findings_witness:
  "\<not> v_is_obsolete format_example \<and> v_msgstr format_example \<noteq> []
   \<and> ustr ''python-format'' \<in> set (v_flags format_example)
   \<and> (\<exists>iss. check_entry sample_arabic_name False False format_example = Inr iss
          \<and> filter is_format_finding iss
              = [mk_issue Error 7 (FormatSpecifierMismatch 2 1)
                   (ustr ''Hello %s, you have %d items'')])"
proof -
  have 1: "\<not> v_is_obsolete format_example" "v_msgstr format_example \<noteq> []"
    "ustr ''python-format'' \<in> set (v_flags format_example)"
    by (simp_all add: format_example_def v_new_entry_def ustr_def)
  have 2: "format_findings format_example
      = [mk_issue Error 7 (FormatSpecifierMismatch 2 1) (ustr ''Hello %s, you have %d items'')]"
    by (simp add: string_defs check_defs format_example_def del: set_filter)
  show ?thesis
    using format_specifier_findings [OF 1, of sample_arabic_name False False] 1 2
    by simp
qed

text \<open>
  C8 as it is stated fails.  An entry with the flag, the \<open>msgid\<close> \<open>%s\<close> and an empty
  translation has one specifier in the source and none in the translation, and the only
  finding is the warning of the empty translation; and an entry with the flag
  \<open>c-format\<close> whose counts are 2 and 1 has no finding.
\<close>

theorem format_check_skipped_counterexample:
  "check_entry sample_arabic_name False False untranslated_format_entry
     = Inr [mk_issue Warning 3 EmptyTranslation (ustr ''%s'')]
   \<and> length (positional_specs (findall_spec (v_msgid untranslated_format_entry))) = 1
   \<and> length (positional_specs (findall_spec (v_msgstr untranslated_format_entry))) = 0
   \<and> check_entry sample_arabic_name False False c_format_entry = Inr []
   \<and> length (positional_specs (findall_spec (v_msgid c_format_entry))) = 2
   \<and> length (positional_specs (findall_spec (v_msgstr c_format_entry))) = 1"
  by (simp add: string_defs check_defs untranslated_format_entry_def c_format_entry_def)

section \<open>Bidirectional control characters\<close>

text \<open>
  C7, as the code has it.  For an entry that is not obsolete and has a translation: the
  findings hold exactly one error about override characters when the translation
  contains U+202D or U+202E, and none otherwise, whatever the language; and they hold
  one info finding that lists the direction-control characters of the translation, the
  two override characters among them, when the language is Arabic and there is such a
  character, and none otherwise.
\<close>

theorem bidi_findings:
  assumes "\<not> v_is_obsolete e" and "v_msgstr e \<noteq> []"
  shows "\<exists>iss. check_entry arabic_name is_arabic strict e = Inr iss
     \<and> filter is_override_finding iss
         = (if 8237 \<in> set (v_msgstr e) \<or> 8238 \<in> set (v_msgstr e)
            then [mk_issue Error (v_line_start e) BidiOverrideCharacters []] else [])
     \<and> filter is_direction_finding iss
         = (if is_arabic \<and> set (v_msgstr e) \<inter> RTL_MARKS \<noteq> {}
            then [mk_issue Info (v_line_start e)
                    (DirectionControlCharacters (set (v_msgstr e) \<inter> RTL_MARKS))
                    (take 40 (v_msgstr e))]
            else [])"
proof -
  have a: "filter is_override_finding (check_bidi_issues e (v_line_start e))
      = (if 8237 \<in> set (v_msgstr e) \<or> 8238 \<in> set (v_msgstr e)
         then [mk_issue Error (v_line_start e) BidiOverrideCharacters []] else [])"
    using assms(2)
    by (auto simp: check_bidi_issues_def Let_def mk_issue_def filter_empty_conv
          is_override_finding_def)
  have s: "set (filter (\<lambda>ch. ch \<in> RTL_MARKS) (v_msgstr e)) = set (v_msgstr e) \<inter> RTL_MARKS"
    by auto
  have b: "filter is_direction_finding (check_arabic_specific arabic_name e (v_line_start e))
      = (if set (v_msgstr e) \<inter> RTL_MARKS \<noteq> {}
         then [mk_issue Info (v_line_start e)
                 (DirectionControlCharacters (set (v_msgstr e) \<inter> RTL_MARKS))
                 (take 40 (v_msgstr e))]
         else [])"
    unfolding check_arabic_specific_def Let_def s
    by (auto simp: is_direction_finding_def is_override_finding_def mk_issue_def filter_empty_conv)
  have f: "filter is_direction_finding
        (if b then [mk_issue Warning l FuzzyTranslation c] else []) = []"
     "filter is_override_finding
        (if b then [mk_issue Warning l FuzzyTranslation c] else []) = []"
    for b l c
    by (simp_all add: is_direction_finding_def is_override_finding_def mk_issue_def)
  show ?thesis
    using assms by (simp add: check_entry_translated a b f format_findings_filter other_findings_filter)
qed

text \<open>The theorem at an entry whose translation starts with U+202E, for Arabic.\<close>

theorem bidi_findings_witness:
  "\<not> v_is_obsolete override_entry \<and> v_msgstr override_entry \<noteq> []
   \<and> (\<exists>iss. check_entry sample_arabic_name True False override_entry = Inr iss
        \<and> filter is_override_finding iss = [mk_issue Error 9 BidiOverrideCharacters []]
        \<and> filter is_direction_finding iss
            = [mk_issue Info 9 (DirectionControlCharacters {8238}) ([8238] @ ustr ''ok'')])"
proof -
  have 1: "\<not> v_is_obsolete override_entry" "v_msgstr override_entry \<noteq> []"
    by (simp_all add: override_entry_def v_new_entry_def)
  have 2: "8238 \<in> set (v_msgstr override_entry)"
    "set (v_msgstr override_entry) \<inter> RTL_MARKS = {8238}"
    "take 40 (v_msgstr override_entry) = [8238] @ ustr ''ok''"
    "v_line_start override_entry = 9"
    by (simp_all add: override_entry_def v_new_entry_def ustr_def RTL_MARKS_def)
  from bidi_findings [OF 1, of sample_arabic_name True False]
  obtain iss where "check_entry sample_arabic_name True False override_entry = Inr iss"
    "filter is_override_finding iss = [mk_issue Error 9 BidiOverrideCharacters []]"
    "filter is_direction_finding iss
       = [mk_issue Info 9 (DirectionControlCharacters {8238}) ([8238] @ ustr ''ok'')]"
    by (auto simp: 2)
  with 1 show ?thesis by blast
qed

text \<open>
  C7 as it is stated fails.  Without an Arabic language a translation with the mark
  U+200F has no finding at all; and for Arabic the info finding of a translation with
  the override character U+202E lists that character.
\<close>

theorem bidi_info_counterexample:
  "check_entry sample_arabic_name False False mark_entry = Inr []
   \<and> 8207 \<in> set (v_msgstr mark_entry)
   \<and> check_entry sample_arabic_name True False override_entry
       = Inr [mk_issue Warning 9 NoArabicCharacters ([8238] @ ustr ''ok''),
              mk_issue Info 9 (DirectionControlCharacters {8238}) ([8238] @ ustr ''ok''),
              mk_issue Error 9 BidiOverrideCharacters []]"
  by (simp add: string_defs check_defs mark_entry_def override_entry_def
        sample_arabic_name_def)

section \<open>Duplicate entries\<close>

text \<open>
  C9.  Obsolete entries should take no part in the detection of duplicates.
  \<open>validate_all\<close> hands all entries that are not headers to the detection, the obsolete
  ones too, although \<open>_check_entry\<close> skips them: an obsolete entry \<open>Save\<close> at line 10
  and an active entry \<open>Save\<close> at line 40 give an error at line 40 that cites line 10.
\<close>

theorem duplicate_with_obsolete_entry:
  "validate_all check_header arabic_name False False [obsolete_save, active_save]
     = Inr (check_header None @ [mk_issue Error 40 (DuplicateMsgid 10) (ustr ''Save'')])"
  by (simp add: validate_all_def obsolete_save_def active_save_def check_entry_def v_new_entry_def
       check_bidi_issues_def check_whitespace_def check_duplicate_msgids_def ustr_def
       lstrip_def rstrip_def is_space_def mk_issue_def)

section \<open>Entries without a translation\<close>












section \<open>The round trip of serializing and parsing\<close>

subsection \<open>Stripping\<close>

lemma lstrip_id: "s = [] \<or> \<not> is_space (hd s) \<Longrightarrow> lstrip s = s"
  by (cases s) (auto simp: lstrip_def)

lemma rstrip_id: "s = [] \<or> \<not> is_space (last s) \<Longrightarrow> rstrip s = s"
  by (cases s rule: rev_cases) (auto simp: rstrip_def)

lemma strip_id: "s \<noteq> [] \<Longrightarrow> \<not> is_space (hd s) \<Longrightarrow> \<not> is_space (last s) \<Longrightarrow> strip s = s"
  by (simp add: strip_def lstrip_id rstrip_id)

lemma dropWhile_same_length: "length (dropWhile P xs) = length xs \<Longrightarrow> xs = [] \<or> \<not> P (hd xs)"
proof (cases xs)
  case Nil
  then show ?thesis by simp
next
  case (Cons x t)
  assume l: "length (dropWhile P xs) = length xs"
  show ?thesis
  proof (rule ccontr)
    assume "\<not> (xs = [] \<or> \<not> P (hd xs))"
    with Cons have "dropWhile P xs = dropWhile P t" by simp
    moreover have "length (dropWhile P t) \<le> length t" by (rule length_dropWhile_le)
    ultimately show False using l Cons by simp
  qed
qed

lemma strip_fixed:
  assumes "strip s = s" and "s \<noteq> []"
  shows "\<not> is_space (hd s) \<and> \<not> is_space (last s)"
proof -
  have l1: "length (lstrip (rstrip s)) \<le> length (rstrip s)"
    by (simp add: lstrip_def length_dropWhile_le)
  have l2: "length (rstrip s) \<le> length s"
    unfolding rstrip_def using length_dropWhile_le [of is_space "rev s"] by simp
  from assms(1) have "length (lstrip (rstrip s)) = length s"
    by (simp add: strip_def)
  with l1 l2 have e: "length (rstrip s) = length s" "length (lstrip (rstrip s)) = length (rstrip s)"
    by simp_all
  from e(1) have "length (dropWhile is_space (rev s)) = length (rev s)"
    by (simp add: rstrip_def)
  from dropWhile_same_length [OF this] assms(2) have last: "\<not> is_space (last s)"
    by (simp add: hd_rev)
  then have r: "rstrip s = s"
    by (simp add: rstrip_id)
  with e(2) have "length (dropWhile is_space s) = length s"
    by (simp add: lstrip_def)
  from dropWhile_same_length [OF this] assms(2) last show ?thesis
    by simp
qed

subsection \<open>Splitting\<close>

lemma split2_other: "c \<noteq> a \<Longrightarrow> split_from [a, b] acc (c # cs) = split_from [a, b] (acc @ [c]) cs"
  by (simp add: startswith_def)

lemma split2_match: "split_from [a, b] acc (a # b # cs) = acc # split_from [a, b] [] cs"
  by (simp add: startswith_def)

lemma split2_second:
  "d \<noteq> b \<Longrightarrow> split_from [a, b] acc (a # d # cs) = split_from [a, b] (acc @ [a]) (d # cs)"
  by (simp add: startswith_def)

lemma split2_single: "split_from [a, b] acc [c] = [acc @ [c]]"
  by (simp add: startswith_def)

lemma split1_match: "split_from [a] acc (a # cs) = acc # split_from [a] [] cs"
  by (simp add: startswith_def)

lemma split1_other: "c \<noteq> a \<Longrightarrow> split_from [a] acc (c # cs) = split_from [a] (acc @ [c]) cs"
  by (simp add: startswith_def)

lemma split_from_nonempty: "split_from sep acc s \<noteq> []"
  by (induction sep acc s rule: split_from.induct) auto

lemma join_Cons: "ps \<noteq> [] \<Longrightarrow> join sep (p # ps) = p @ sep @ join sep ps"
  by (cases ps) auto

lemma join_split1: "join [a] (split_from [a] acc s) = acc @ s"
proof (induction s arbitrary: acc)
  case Nil
  then show ?case by simp
next
  case (Cons c s)
  show ?case
  proof (cases "c = a")
    case True
    then show ?thesis
      by (simp add: split1_match join_Cons split_from_nonempty Cons.IH del: split_from.simps(2))
  next
    case False
    then show ?thesis
      by (simp add: split1_other Cons.IH del: split_from.simps(2))
  qed
qed

lemma split1_pieces:
  assumes closed: "\<And>xs ys. P (xs @ ys) \<Longrightarrow> P xs \<and> P ys"
  shows "P (acc @ s) \<Longrightarrow> \<forall>p \<in> set (split_from [a] acc s). P p"
proof (induction s arbitrary: acc)
  case Nil
  then show ?case by simp
next
  case (Cons c s)
  show ?case
  proof (cases "c = a")
    case True
    from Cons.prems closed [of acc "c # s"] have "P acc" "P (c # s)" by auto
    with closed [of "[c]" s] have "P ([] @ s)" by simp
    with Cons.IH [of "[]"] \<open>P acc\<close> True show ?thesis
      by (simp add: split1_match del: split_from.simps(2))
  next
    case False
    from Cons.prems have "P ((acc @ [c]) @ s)" by simp
    from Cons.IH [OF this] False show ?thesis
      by (simp add: split1_other del: split_from.simps(2))
  qed
qed

lemma esc_shape:
  "(c = 92 \<and> esc True True True True c = [92, 92])
   \<or> (c = 10 \<and> esc True True True True c = [92, 110])
   \<or> (c \<noteq> 92 \<and> c \<noteq> 10 \<and> (\<exists>z. esc True True True True c = [92, z] \<and> z \<noteq> 110 \<and> z \<noteq> 92))
   \<or> (c \<noteq> 92 \<and> c \<noteq> 10 \<and> esc True True True True c = [c])"
  by (simp add: esc_def)

lemma esc_cases:
  obtains "c = 92" "esc True True True True c = [92, 92]"
  | "c = 10" "esc True True True True c = [92, 110]"
  | z where "c \<noteq> 92" "c \<noteq> 10" "esc True True True True c = [92, z]" "z \<noteq> 110" "z \<noteq> 92"
  | "c \<noteq> 92" "c \<noteq> 10" "esc True True True True c = [c]"
  using esc_shape [of c] by blast

lemma escs_hd: "s \<noteq> [] \<Longrightarrow> hd s \<noteq> 110 \<Longrightarrow> escs s \<noteq> [] \<and> hd (escs s) \<noteq> 110"
  by (cases s) (auto simp: esc_def)

lemma split_escaped:
  "backslash_safe s \<Longrightarrow>
     split_from [92, 110] (escs acc) (escs s) = map escs (split_from [10] acc s)"
proof (induction s arbitrary: acc)
  case Nil
  then show ?case by simp
next
  case (Cons c s)
  then have safe: "backslash_safe s" by (cases s) auto
  note ih = Cons.IH [OF safe]
  show ?case
  proof (cases c rule: esc_cases)
    case 1
    have e: "escs (c # s) = 92 # 92 # escs s" "escs (acc @ [c]) = escs acc @ [92, 92]"
      using 1 by simp_all
    have "split_from [92, 110] (escs acc @ [92]) (92 # escs s)
        = split_from [92, 110] (escs acc @ [92, 92]) (escs s)"
    proof (cases s)
      case Nil
      then show ?thesis by (simp add: split2_single del: split_from.simps(2))
    next
      case (Cons d s')
      with Cons.prems 1 have "d \<noteq> 110" by auto
      with escs_hd [of s] Cons obtain h t where "escs s = h # t" "h \<noteq> 110"
        by (cases "escs s") auto
      then show ?thesis
        by (simp add: split2_second del: split_from.simps(2))
    qed
    then have "split_from [92, 110] (escs acc) (escs (c # s))
        = split_from [92, 110] (escs (acc @ [c])) (escs s)"
      unfolding e by (simp add: split2_second del: split_from.simps(2))
    also have "\<dots> = map escs (split_from [10] (acc @ [c]) s)"
      by (rule ih)
    also have "\<dots> = map escs (split_from [10] acc (c # s))"
      using 1 by (simp add: split1_other del: split_from.simps(2))
    finally show ?thesis .
  next
    case 2
    have e: "escs (c # s) = 92 # 110 # escs s"
      using 2 by simp
    have "split_from [92, 110] (escs acc) (escs (c # s))
        = escs acc # split_from [92, 110] (escs []) (escs s)"
      unfolding e by (simp add: split2_match del: split_from.simps(2))
    also have "\<dots> = escs acc # map escs (split_from [10] [] s)"
      by (simp only: ih)
    also have "\<dots> = map escs (split_from [10] acc (c # s))"
      using 2 by (simp add: split1_match del: split_from.simps(2))
    finally show ?thesis .
  next
    case (3 z)
    have e: "escs (c # s) = 92 # z # escs s" "escs (acc @ [c]) = escs acc @ [92, z]"
      using 3 by simp_all
    have "split_from [92, 110] (escs acc) (escs (c # s))
        = split_from [92, 110] (escs (acc @ [c])) (escs s)"
      unfolding e using 3 by (simp add: split2_second split2_other del: split_from.simps(2))
    also have "\<dots> = map escs (split_from [10] (acc @ [c]) s)"
      by (rule ih)
    also have "\<dots> = map escs (split_from [10] acc (c # s))"
      using 3 by (simp add: split1_other del: split_from.simps(2))
    finally show ?thesis .
  next
    case 4
    have e: "escs (c # s) = c # escs s" "escs (acc @ [c]) = escs acc @ [c]"
      using 4 by simp_all
    have "split_from [92, 110] (escs acc) (escs (c # s))
        = split_from [92, 110] (escs (acc @ [c])) (escs s)"
      unfolding e using 4 by (simp add: split2_other del: split_from.simps(2))
    also have "\<dots> = map escs (split_from [10] (acc @ [c]) s)"
      by (rule ih)
    also have "\<dots> = map escs (split_from [10] acc (c # s))"
      using 4 by (simp add: split1_other del: split_from.simps(2))
    finally show ?thesis .
  qed
qed

lemma split_escape:
  "backslash_safe s \<Longrightarrow> split_sep (escape s) [92, 110] = map escape (split_sep s [10])"
  using split_escaped [of s "[]"] by (simp add: split_sep_def escape_concat [abs_def])

subsection \<open>Backslash-safe strings\<close>

lemma backslash_safe_append:
  "backslash_safe (xs @ ys) \<Longrightarrow> backslash_safe xs \<and> backslash_safe ys"
proof (induction xs rule: backslash_safe.induct)
  case 1
  then show ?case by simp
next
  case (2 c)
  then show ?case by (cases ys) auto
next
  case (3 c d s)
  then show ?case by auto
qed

lemma backslash_safe_snoc:
  "backslash_safe p \<Longrightarrow> d \<noteq> 110 \<Longrightarrow> d \<noteq> 114 \<Longrightarrow> d \<noteq> 116 \<Longrightarrow> backslash_safe (p @ [d])"
  by (induction p rule: backslash_safe.induct) auto

lemma escape_snoc: "escape (p @ [10]) = escape p @ [92, 110]"
  by (simp add: escape_concat esc_def)

subsection \<open>The lines of a serialized catalog\<close>

lemma serialize_entry_lines: "serialize_entry e = join [10] (entry_lines e)"
  by (simp add: serialize_entry_def entry_lines_def)

lemma entry_lines_nonempty: "entry_lines e \<noteq> []"
  by (simp add: entry_lines_def serialize_msgid_def Let_def)

lemma splitlines_step: "\<not> is_linebreak c \<Longrightarrow> splitlines_from cur (c # s) = splitlines_from (cur @ [c]) s"
  by (cases s) (auto simp: is_linebreak_def)

lemma splitlines_lf: "splitlines_from cur (10 # s) = cur # splitlines_from [] s"
  by (cases s) (auto simp: is_linebreak_def)

lemma splitlines_line:
  "no_linebreak l \<Longrightarrow> splitlines_from cur (l @ 10 # s) = (cur @ l) # splitlines_from [] s"
proof (induction l arbitrary: cur)
  case Nil
  then show ?case by (simp add: splitlines_lf del: splitlines_from.simps)
next
  case (Cons c l)
  then have "\<not> is_linebreak c" "no_linebreak l"
    by (simp_all add: no_linebreak_def)
  with Cons.IH [of "cur @ [c]"] show ?case
    by (simp add: splitlines_step del: splitlines_from.simps)
qed

lemma splitlines_lines:
  "ls \<noteq> [] \<Longrightarrow> \<forall>l \<in> set ls. no_linebreak l \<Longrightarrow>
     splitlines_from [] (join [10] ls @ 10 # s) = ls @ splitlines_from [] s"
proof (induction ls rule: induct_list012)
  case 1
  then show ?case by simp
next
  case (2 p)
  then show ?case
    using splitlines_line [of p "[]" s] by simp
next
  case (3 p q ps)
  then have "splitlines_from [] (join [10] (q # ps) @ 10 # s) = (q # ps) @ splitlines_from [] s"
    by simp
  moreover have "no_linebreak p" using 3 by simp
  ultimately show ?case
    using splitlines_line [of p "[]" "join [10] (q # ps) @ 10 # s"] by simp
qed

lemma splitlines_serialize:
  assumes "\<forall>e \<in> set c. \<forall>l \<in> set (entry_lines e). no_linebreak l"
  shows "splitlines (serialize c) = all_lines c"
  using assms
proof (induction c rule: all_lines.induct)
  case 1
  then show ?case by (simp add: splitlines_def serialize_def is_linebreak_def)
next
  case (2 e)
  then show ?case
    using splitlines_lines [of "entry_lines e" "[]"]
    by (simp add: splitlines_def serialize_def serialize_entry_lines entry_lines_nonempty)
next
  case (3 e e' es)
  then have ih: "splitlines_from [] (join [10, 10] (map serialize_entry (e' # es)) @ [10])
      = all_lines (e' # es)"
    by (simp add: splitlines_def serialize_def)
  have "splitlines_from [] (join [10] (entry_lines e)
          @ 10 # 10 # join [10, 10] (map serialize_entry (e' # es)) @ [10])
      = entry_lines e @ [] # all_lines (e' # es)"
    using splitlines_lines [of "entry_lines e"
        "10 # join [10, 10] (map serialize_entry (e' # es)) @ [10]"] 3(2) ih
    by (simp add: entry_lines_nonempty splitlines_lf del: splitlines_from.simps join.simps)
  then show ?case
    by (simp add: splitlines_def serialize_def serialize_entry_lines del: splitlines_from.simps)
qed

subsection \<open>The entry under construction\<close>

lemma view_Some: "view (Some c) = core c"
  by (simp add: view_def)

lemma view_new: "core (new_entry n) = view None"
  by (simp add: view_def core_def new_entry_def)

lemma view_cur: "core (case co of None \<Rightarrow> new_entry n | Some c \<Rightarrow> c) = view co"
  by (cases co) (simp_all add: view_new view_Some)

subsection \<open>Quoted literals\<close>

lemma is_space_facts [simp]:
  "\<not> is_space 34" "\<not> is_space 35" "\<not> is_space 44" "\<not> is_space 46" "\<not> is_space 58"
  "\<not> is_space 109" "is_space 32"
  by (simp_all add: is_space_def)

lemma strip_quoted: "strip (34 # E @ [34]) = 34 # E @ [34]"
  by (rule strip_id) simp_all

lemma parse_string_quoted:
  "backslash_safe m \<Longrightarrow> parse_string (34 # escape m @ [34]) = m"
  by (simp add: parse_string_def strip_quoted startswith_def endswith_def butlast_append
        unescape_escape)

lemma strip_keyword:
  assumes "k \<noteq> []" "\<not> is_space (hd k)"
  shows "strip (k @ 34 # E @ [34]) = k @ 34 # E @ [34]"
  using assms by (intro strip_id) simp_all

lemma msgid_line_facts:
  fixes E :: ustring
  defines "L \<equiv> ustr ''msgid '' @ 34 # E @ [34]"
  shows "strip L = L" "L \<noteq> []" "\<not> startswith L (ustr ''#'')"
    "startswith L (ustr ''msgid '')" "drop 6 L = 34 # E @ [34]"
proof -
  show "strip L = L"
    unfolding L_def by (rule strip_keyword) (simp_all add: ustr_def)
qed (simp_all add: L_def ustr_def startswith_def)

lemma msgstr_line_facts:
  fixes E :: ustring
  defines "L \<equiv> ustr ''msgstr '' @ 34 # E @ [34]"
  shows "strip L = L" "L \<noteq> []" "\<not> startswith L (ustr ''#'')"
    "\<not> startswith L (ustr ''msgid '')" "startswith L (ustr ''msgstr '')"
    "drop 7 L = 34 # E @ [34]"
proof -
  show "strip L = L"
    unfolding L_def by (rule strip_keyword) (simp_all add: ustr_def)
qed (simp_all add: L_def ustr_def startswith_def)

lemma chunk_line_facts:
  fixes E :: ustring
  defines "L \<equiv> 34 # E @ [34]"
  shows "strip L = L" "L \<noteq> []" "\<not> startswith L (ustr ''#'')"
    "\<not> startswith L (ustr ''msgid '')" "\<not> startswith L (ustr ''msgstr '')"
    "startswith L [34]"
proof -
  show "strip L = L"
    unfolding L_def by (rule strip_quoted)
qed (simp_all add: L_def ustr_def startswith_def)

subsection \<open>Lines of a value\<close>

lemma parse_line_msgid:
  assumes "strip L = L" "L \<noteq> []" "\<not> startswith L (ustr ''#'')"
    "startswith L (ustr ''msgid '')" "parse_string (drop 6 L) = m" "pmode st = None"
  shows "\<exists>st' c. parse_line n L st = Inr st'
     \<and> entries st' = entries st \<and> pmode st' = Some ModeMsgid \<and> current st' = Some c
     \<and> (m = [] \<longrightarrow> is_header c) \<and> msgid c = m
     \<and> core c = (view (current st))\<lparr>msgid := m\<rparr>"
proof -
  define cur where "cur = (case current st of None \<Rightarrow> new_entry n | Some c \<Rightarrow> c)"
  have v: "core cur = view (current st)"
    unfolding cur_def by (rule view_cur)
  have c: "core (cur\<lparr>msgid := x\<rparr>) = (core cur)\<lparr>msgid := x\<rparr>"
    "core (cur\<lparr>msgid := x, is_header := True\<rparr>) = (core cur)\<lparr>msgid := x\<rparr>" for x
    by (simp_all add: core_def)
  show ?thesis
    using assms
    by (auto simp: parse_line_def Let_def cur_def [symmetric] v c)
qed

lemma parse_line_msgstr:
  assumes "strip L = L" "L \<noteq> []" "\<not> startswith L (ustr ''#'')"
    "\<not> startswith L (ustr ''msgid '')" "startswith L (ustr ''msgstr '')"
    "parse_string (drop 7 L) = m" "current st = Some c"
  shows "\<exists>st'. parse_line n L st = Inr st'
     \<and> entries st' = entries st \<and> pmode st' = Some ModeMsgstr
     \<and> current st' = Some (c\<lparr>msgstr := m\<rparr>)"
  using assms by (simp add: parse_line_def Let_def)

lemma parse_line_chunk:
  assumes "strip L = L" "L \<noteq> []" "\<not> startswith L (ustr ''#'')"
    "\<not> startswith L (ustr ''msgid '')" "\<not> startswith L (ustr ''msgstr '')"
    "startswith L [34]" "parse_string L = m" "current st = Some c" "pmode st = Some md"
  shows "\<exists>st'. parse_line n L st = Inr st'
     \<and> entries st' = entries st \<and> pmode st' = Some md
     \<and> current st' = Some (if md = ModeMsgid
          then (if msgid c @ m = [] then c\<lparr>msgid := msgid c @ m, is_header := True\<rparr>
                else c\<lparr>msgid := msgid c @ m\<rparr>)
          else c\<lparr>msgstr := msgstr c @ m\<rparr>)"
  using assms by (simp add: parse_line_def Let_def)

lemma parse_msgid_line:
  assumes "pmode st = None" and "backslash_safe m"
  shows "\<exists>st' c. parse_line n (ustr ''msgid '' @ 34 # escape m @ [34]) st = Inr st'
     \<and> entries st' = entries st \<and> pmode st' = Some ModeMsgid \<and> current st' = Some c
     \<and> (m = [] \<longrightarrow> is_header c) \<and> msgid c = m
     \<and> core c = (view (current st))\<lparr>msgid := m\<rparr>"
proof (rule parse_line_msgid)
  show "parse_string (drop 6 (ustr ''msgid '' @ 34 # escape m @ [34])) = m"
    unfolding msgid_line_facts using assms(2) by (rule parse_string_quoted)
qed (rule msgid_line_facts assms)+

lemma parse_msgstr_line:
  assumes "current st = Some c" and "backslash_safe m"
  shows "\<exists>st'. parse_line n (ustr ''msgstr '' @ 34 # escape m @ [34]) st = Inr st'
     \<and> entries st' = entries st \<and> pmode st' = Some ModeMsgstr
     \<and> current st' = Some (c\<lparr>msgstr := m\<rparr>)"
proof (rule parse_line_msgstr)
  show "parse_string (drop 7 (ustr ''msgstr '' @ 34 # escape m @ [34])) = m"
    unfolding msgstr_line_facts using assms(2) by (rule parse_string_quoted)
qed (rule msgstr_line_facts assms)+

lemma parse_chunk_line:
  assumes "current st = Some c" and "pmode st = Some md" and "backslash_safe m"
  shows "\<exists>st'. parse_line n (34 # escape m @ [34]) st = Inr st'
     \<and> entries st' = entries st \<and> pmode st' = Some md
     \<and> current st' = Some (if md = ModeMsgid
          then (if msgid c @ m = [] then c\<lparr>msgid := msgid c @ m, is_header := True\<rparr>
                else c\<lparr>msgid := msgid c @ m\<rparr>)
          else c\<lparr>msgstr := msgstr c @ m\<rparr>)"
proof (rule parse_line_chunk)
  show "parse_string (34 # escape m @ [34]) = m"
    using assms(3) by (rule parse_string_quoted)
qed (rule chunk_line_facts assms)+

subsection \<open>Values of several lines\<close>

lemma parse_lines_append:
  "parse_lines n (xs @ ys) st =
     (case parse_lines n xs st of Inl e \<Rightarrow> Inl e | Inr st' \<Rightarrow> parse_lines (n + length xs) ys st')"
  by (induction xs arbitrary: n st) (auto split: sum.splits)

lemma escape_Nil: "escape [] = []"
  by (simp add: escape_concat)

lemma quote_chunks_more:
  "quote_chunks (map escape (p # q # ps))
     = (34 # escape (p @ [10]) @ [34]) # quote_chunks (map escape (q # ps))"
  by (simp add: escape_snoc)

lemma quote_chunks_one: "quote_chunks (map escape [p]) = [34 # escape p @ [34]]"
  by simp

lemma parse_chunks_msgid:
  assumes "ps \<noteq> []" and "\<forall>p \<in> set ps. backslash_safe p"
    and "current st = Some c" and "pmode st = Some ModeMsgid"
  shows "\<exists>st' c'. parse_lines n (quote_chunks (map escape ps)) st = Inr st'
     \<and> entries st' = entries st \<and> pmode st' = Some ModeMsgid \<and> current st' = Some c'
     \<and> (is_header c \<longrightarrow> is_header c') \<and> msgid c' = msgid c @ join [10] ps
     \<and> core c' = (core c)\<lparr>msgid := msgid c @ join [10] ps\<rparr>"
  using assms
proof (induction ps arbitrary: n st c rule: induct_list012)
  case 1
  then show ?case by simp
next
  case (2 p)
  from 2 have "backslash_safe p" by simp
  from parse_chunk_line [OF 2(3) 2(4) this, of n]
  show ?case
    unfolding quote_chunks_one by (auto simp: core_def)
next
  case (3 p q ps)
  from 3 have "backslash_safe (p @ [10])"
    by (simp add: backslash_safe_snoc)
  from parse_chunk_line [OF "3.prems"(3) "3.prems"(4) this, of n]
  obtain st1 where st1: "parse_line n (34 # escape (p @ [10]) @ [34]) st = Inr st1"
    "entries st1 = entries st" "pmode st1 = Some ModeMsgid"
    "current st1 = Some (c\<lparr>msgid := msgid c @ p @ [10]\<rparr>)"
    by auto
  have "q # ps \<noteq> []" "\<forall>p \<in> set (q # ps). backslash_safe p"
    using "3.prems" by simp_all
  from "3.IH"(2) [OF this st1(4) st1(3), of "Suc n"]
  show ?case
    unfolding quote_chunks_more using st1 by (auto simp: core_def)
qed

lemma parse_chunks_msgstr:
  assumes "ps \<noteq> []" and "\<forall>p \<in> set ps. backslash_safe p"
    and "current st = Some c" and "pmode st = Some ModeMsgstr"
  shows "\<exists>st'. parse_lines n (quote_chunks (map escape ps)) st = Inr st'
     \<and> entries st' = entries st \<and> pmode st' = Some ModeMsgstr
     \<and> current st' = Some (c\<lparr>msgstr := msgstr c @ join [10] ps\<rparr>)"
  using assms
proof (induction ps arbitrary: n st c rule: induct_list012)
  case 1
  then show ?case by simp
next
  case (2 p)
  from 2 have "backslash_safe p" by simp
  from parse_chunk_line [OF 2(3) 2(4) this, of n]
  show ?case
    unfolding quote_chunks_one by auto
next
  case (3 p q ps)
  from 3 have "backslash_safe (p @ [10])"
    by (simp add: backslash_safe_snoc)
  from parse_chunk_line [OF "3.prems"(3) "3.prems"(4) this, of n]
  obtain st1 where st1: "parse_line n (34 # escape (p @ [10]) @ [34]) st = Inr st1"
    "entries st1 = entries st" "pmode st1 = Some ModeMsgstr"
    "current st1 = Some (c\<lparr>msgstr := msgstr c @ p @ [10]\<rparr>)"
    by auto
  have "q # ps \<noteq> []" "\<forall>p \<in> set (q # ps). backslash_safe p"
    using "3.prems" by simp_all
  from "3.IH"(2) [OF this st1(4) st1(3), of "Suc n"]
  show ?case
    unfolding quote_chunks_more using st1 by auto
qed

lemma pieces_safe:
  assumes "backslash_safe m"
  shows "\<forall>p \<in> set (split_sep m [10]). backslash_safe p"
  unfolding split_sep_def
  by (rule split1_pieces [where P = backslash_safe]) (auto dest: backslash_safe_append simp: assms)

lemma pieces_join: "join [10] (split_sep m [10]) = m"
  by (simp add: split_sep_def join_split1)

lemma pieces_nonempty: "split_sep m [10] \<noteq> []"
  by (simp add: split_sep_def split_from_nonempty)

lemma parse_serialize_msgid:
  assumes "pmode st = None" and "backslash_safe m"
  shows "\<exists>st' c. parse_lines n (serialize_msgid m) st = Inr st'
     \<and> entries st' = entries st \<and> pmode st' = Some ModeMsgid \<and> current st' = Some c
     \<and> (is_header c \<or> msgid c \<noteq> [])
     \<and> core c = (view (current st))\<lparr>msgid := m\<rparr>"
proof (cases "10 \<in> set m")
  case False
  from parse_msgid_line [OF assms, of n] False show ?thesis
    by (auto simp: serialize_msgid_def Let_def)
next
  case True
  have "backslash_safe []" by simp
  from parse_msgid_line [OF assms(1) this, of n]
  obtain st1 c1 where st1: "parse_line n (ustr ''msgid '' @ [34, 34]) st = Inr st1"
    "entries st1 = entries st" "pmode st1 = Some ModeMsgid" "current st1 = Some c1"
    "is_header c1" "msgid c1 = []" "core c1 = (view (current st))\<lparr>msgid := []\<rparr>"
    by (auto simp: escape_Nil)
  from parse_chunks_msgid [OF pieces_nonempty pieces_safe [OF assms(2)] st1(4) st1(3), of "Suc n"]
  obtain st2 c2 where st2:
    "parse_lines (Suc n) (quote_chunks (map escape (split_sep m [10]))) st1 = Inr st2"
    "entries st2 = entries st1" "pmode st2 = Some ModeMsgid" "current st2 = Some c2"
    "is_header c2" "core c2 = (core c1)\<lparr>msgid := m\<rparr>"
    using st1(5,6) by (auto simp: pieces_join)
  have "serialize_msgid m
      = (ustr ''msgid '' @ [34, 34]) # quote_chunks (map escape (split_sep m [10]))"
    using True by (simp add: serialize_msgid_def Let_def split_escape [OF assms(2)])
  with st1 st2 show ?thesis
    by simp
qed

lemma parse_serialize_msgstr:
  assumes "current st = Some c" and "backslash_safe m"
  shows "\<exists>st'. parse_lines n (serialize_msgstr m) st = Inr st'
     \<and> entries st' = entries st \<and> pmode st' = Some ModeMsgstr
     \<and> current st' = Some (c\<lparr>msgstr := m\<rparr>)"
proof (cases "10 \<in> set m")
  case False
  have "(if m \<noteq> [] then escape m else []) = escape m"
    by (simp add: escape_Nil)
  with parse_msgstr_line [OF assms, of n] False show ?thesis
    by (auto simp: serialize_msgstr_def Let_def)
next
  case True
  then have ne: "m \<noteq> []" by auto
  have "backslash_safe []" by simp
  from parse_msgstr_line [OF assms(1) this, of n]
  obtain st1 where st1: "parse_line n (ustr ''msgstr '' @ [34, 34]) st = Inr st1"
    "entries st1 = entries st" "pmode st1 = Some ModeMsgstr"
    "current st1 = Some (c\<lparr>msgstr := []\<rparr>)"
    by (auto simp: escape_Nil)
  from parse_chunks_msgstr [OF pieces_nonempty pieces_safe [OF assms(2)] st1(4) st1(3), of "Suc n"]
  obtain st2 where st2:
    "parse_lines (Suc n) (quote_chunks (map escape (split_sep m [10]))) st1 = Inr st2"
    "entries st2 = entries st1" "pmode st2 = Some ModeMsgstr"
    "current st2 = Some (c\<lparr>msgstr := m\<rparr>)"
    by (auto simp: pieces_join)
  have "serialize_msgstr m
      = (ustr ''msgstr '' @ [34, 34]) # quote_chunks (map escape (split_sep m [10]))"
    using True ne by (simp add: serialize_msgstr_def Let_def split_escape [OF assms(2)])
  with st1 st2 show ?thesis
    by simp
qed

subsection \<open>More on strip\<close>

lemma rstrip_append:
  assumes "A \<noteq> []" and "\<not> is_space (last A)"
  shows "rstrip (A @ Y) = A @ rstrip Y"
proof -
  have a: "dropWhile is_space (rev A) = rev A"
    using assms by (simp add: dropWhile_eq_self_iff hd_rev)
  show ?thesis
    by (simp add: rstrip_def dropWhile_append a)
qed

lemma rstrip_Cons: "\<not> is_space c \<Longrightarrow> rstrip (c # Y) = c # rstrip Y"
  using rstrip_append [of "[c]" Y] by simp

lemma strip_space: "strip x = x \<Longrightarrow> strip (32 # x) = x"
proof (cases "x = []")
  case True
  then show ?thesis by (simp add: strip_def lstrip_def rstrip_def)
next
  case False
  assume "strip x = x"
  from strip_fixed [OF this False] have h: "\<not> is_space (hd x)" "\<not> is_space (last x)"
    by simp_all
  with False have "rstrip (32 # x) = 32 # x"
    by (intro rstrip_id) simp
  moreover have "lstrip (32 # x) = x"
    using h False by (cases x) (simp_all add: lstrip_def)
  ultimately show ?thesis by (simp add: strip_def)
qed

lemma strip_rstrip_space: "strip x = x \<Longrightarrow> strip (rstrip (32 # x)) = x"
proof (cases "x = []")
  case True
  then show ?thesis by (simp add: strip_def lstrip_def rstrip_def)
next
  case False
  assume s: "strip x = x"
  from strip_fixed [OF this False] have "\<not> is_space (last x)" by simp
  with False have "rstrip (32 # x) = 32 # x"
    by (intro rstrip_id) simp
  with s show ?thesis by (simp add: strip_space)
qed

lemma strip_hash2:
  assumes "\<not> is_space a"
  shows "strip (35 # a # Y) = 35 # a # rstrip Y"
  using assms by (simp add: strip_def rstrip_Cons lstrip_def)

subsection \<open>Comment lines\<close>

lemma parse_line_comment:
  assumes "strip L = L'" and "L' \<noteq> []" and "startswith L' (ustr ''#'')"
    and "\<And>cur. core (parse_comment L' cur) = G (core cur)"
  shows "\<exists>st'. parse_line n L st = Inr st' \<and> entries st' = entries st \<and> pmode st' = pmode st
     \<and> view (current st') = G (view (current st))"
  using assms(1-3)
  by (simp add: parse_line_def Let_def view_Some assms(4) view_cur)

lemma parse_comments:
  assumes "\<forall>c \<in> set cs. wf_comment c"
  shows "\<exists>st'. parse_lines n cs st = Inr st' \<and> entries st' = entries st \<and> pmode st' = pmode st
     \<and> view (current st') = (view (current st))\<lparr>comments := comments (view (current st)) @ cs\<rparr>"
  using assms
proof (induction cs arbitrary: n st)
  case Nil
  then show ?case by simp
next
  case (Cons c cs)
  then have wf: "wf_comment c" by simp
  then have "c \<noteq> []"
    by (auto simp: wf_comment_def startswith_def ustr_def)
  have "core (parse_comment c cur) = (core cur)\<lparr>comments := comments (core cur) @ [c]\<rparr>" for cur
    using wf by (simp add: parse_comment_def wf_comment_def core_def)
  from parse_line_comment [of c c, OF _ \<open>c \<noteq> []\<close> _ this, of n st] wf
  obtain st1 where st1: "parse_line n c st = Inr st1" "entries st1 = entries st"
    "pmode st1 = pmode st"
    "view (current st1) = (view (current st))\<lparr>comments := comments (view (current st)) @ [c]\<rparr>"
    by (auto simp: wf_comment_def)
  from Cons.IH [of "Suc n" st1] Cons.prems st1 show ?case
    by auto
qed

lemma extracted_line:
  assumes "wf_extracted x"
  shows "\<exists>L'. strip (ustr ''#. '' @ x) = L' \<and> L' \<noteq> [] \<and> startswith L' (ustr ''#'')
     \<and> (\<forall>cur. core (parse_comment L' cur)
            = (core cur)\<lparr>extracted_comments := extracted_comments (core cur) @ [x]\<rparr>)"
proof -
  have s: "strip (ustr ''#. '' @ x) = 35 # 46 # rstrip (32 # x)"
    by (simp add: ustr_def strip_hash2)
  have "strip (rstrip (32 # x)) = x"
    using assms by (simp add: wf_extracted_def strip_rstrip_space)
  then show ?thesis
    unfolding s by (simp add: parse_comment_def startswith_def ustr_def core_def)
qed

lemma parse_extracted:
  assumes "\<forall>x \<in> set xs. wf_extracted x"
  shows "\<exists>st'. parse_lines n (map (\<lambda>ec. ustr ''#. '' @ ec) xs) st = Inr st'
     \<and> entries st' = entries st \<and> pmode st' = pmode st
     \<and> view (current st') = (view (current st))\<lparr>extracted_comments :=
          extracted_comments (view (current st)) @ xs\<rparr>"
  using assms
proof (induction xs arbitrary: n st)
  case Nil
  then show ?case by simp
next
  case (Cons x xs)
  then have "wf_extracted x" by simp
  from extracted_line [OF this] obtain L' where L: "strip (ustr ''#. '' @ x) = L'" "L' \<noteq> []"
    "startswith L' (ustr ''#'')"
    "\<And>cur. core (parse_comment L' cur)
       = (core cur)\<lparr>extracted_comments := extracted_comments (core cur) @ [x]\<rparr>"
    by blast
  from parse_line_comment [OF L, of n st]
  obtain st1 where st1: "parse_line n (ustr ''#. '' @ x) st = Inr st1" "entries st1 = entries st"
    "pmode st1 = pmode st"
    "view (current st1) = (view (current st))\<lparr>extracted_comments :=
       extracted_comments (view (current st)) @ [x]\<rparr>"
    by auto
  from Cons.IH [of "Suc n" st1] Cons.prems st1 show ?case
    by auto
qed

subsection \<open>The flags line\<close>

lemma split_at_sep:
  "a \<notin> set x \<Longrightarrow> split_from [a] acc (x @ a # s) = (acc @ x) # split_from [a] [] s"
proof (induction x arbitrary: acc)
  case Nil
  then show ?case by (simp add: split1_match del: split_from.simps(2))
next
  case (Cons c x)
  then show ?case
    using Cons.IH [of "acc @ [c]"] by (simp add: split1_other del: split_from.simps(2))
qed

lemma split_no_sep: "a \<notin> set x \<Longrightarrow> split_from [a] acc x = [acc @ x]"
proof (induction x arbitrary: acc)
  case Nil
  then show ?case by simp
next
  case (Cons c x)
  then show ?case
    using Cons.IH [of "acc @ [c]"] by (simp add: split1_other del: split_from.simps(2))
qed

lemma rstrip_set: "set (rstrip s) \<subseteq> set s"
  unfolding rstrip_def using set_dropWhileD [of _ is_space "rev s"] by auto

lemma flags_roundtrip:
  assumes "fs \<noteq> []" and "\<forall>f \<in> set fs. wf_flag f"
  shows "map strip (split_from [44] [] (rstrip (32 # join (ustr '', '') fs))) = fs"
  using assms
proof (induction fs rule: induct_list012)
  case 1
  then show ?case by simp
next
  case (2 f)
  then have wf: "44 \<notin> set f" "strip f = f"
    by (simp_all add: wf_flag_def)
  then have "44 \<notin> set (rstrip (32 # f))"
    using rstrip_set [of "32 # f"] by auto
  then show ?case
    using wf by (simp add: split_no_sep strip_rstrip_space)
next
  case (3 f g fs)
  then have wf: "44 \<notin> set f" "strip f = f"
    by (simp_all add: wf_flag_def)
  have ih: "map strip (split_from [44] [] (rstrip (32 # join (ustr '', '') (g # fs)))) = g # fs"
    using 3 by simp
  have "32 # join (ustr '', '') (f # g # fs)
      = (32 # f @ [44]) @ 32 # join (ustr '', '') (g # fs)"
    by (simp add: ustr_def)
  moreover have "rstrip ((32 # f @ [44]) @ Y) = (32 # f @ [44]) @ rstrip Y" for Y
    by (rule rstrip_append) simp_all
  ultimately have "rstrip (32 # join (ustr '', '') (f # g # fs))
      = (32 # f @ [44]) @ rstrip (32 # join (ustr '', '') (g # fs))"
    by (simp only:)
  then have "rstrip (32 # join (ustr '', '') (f # g # fs))
      = (32 # f) @ 44 # rstrip (32 # join (ustr '', '') (g # fs))"
    by simp
  then have "split_from [44] [] (rstrip (32 # join (ustr '', '') (f # g # fs)))
      = (32 # f) # split_from [44] [] (rstrip (32 # join (ustr '', '') (g # fs)))"
    using split_at_sep [of 44 "32 # f" "[]"] wf(1) by simp
  with ih wf(2) show ?case
    by (simp add: strip_space)
qed

lemma flags_line:
  assumes "fs \<noteq> []" and "\<forall>f \<in> set fs. wf_flag f"
  shows "\<exists>L'. strip (ustr ''#, '' @ join (ustr '', '') fs) = L' \<and> L' \<noteq> []
     \<and> startswith L' (ustr ''#'')
     \<and> (\<forall>cur. core (parse_comment L' cur) = (core cur)\<lparr>flags := fs\<rparr>)"
proof -
  have s: "strip (ustr ''#, '' @ join (ustr '', '') fs)
      = 35 # 44 # rstrip (32 # join (ustr '', '') fs)"
    by (simp add: ustr_def strip_hash2)
  have "map strip (split_sep (rstrip (32 # join (ustr '', '') fs)) (ustr '','')) = fs"
    using flags_roundtrip [OF assms] by (simp add: split_sep_def ustr_def)
  then show ?thesis
    unfolding s by (simp add: parse_comment_def startswith_def core_def Let_def ustr_def)
qed

lemma parse_flags:
  assumes "\<forall>f \<in> set fs. wf_flag f"
  shows "\<exists>st'. parse_lines n
        (if fs \<noteq> [] then [ustr ''#, '' @ join (ustr '', '') fs] else []) st = Inr st'
     \<and> entries st' = entries st \<and> pmode st' = pmode st
     \<and> view (current st')
         = (if fs = [] then view (current st) else (view (current st))\<lparr>flags := fs\<rparr>)"
proof (cases "fs = []")
  case True
  then show ?thesis by simp
next
  case False
  from flags_line [OF False assms] obtain L' where
    L: "strip (ustr ''#, '' @ join (ustr '', '') fs) = L'" "L' \<noteq> []" "startswith L' (ustr ''#'')"
    "\<And>cur. core (parse_comment L' cur) = (core cur)\<lparr>flags := fs\<rparr>"
    by blast
  from parse_line_comment [OF L, of n st] False show ?thesis
    by auto
qed

subsection \<open>The location lines\<close>

lemma split_ws_word:
  "list_all (\<lambda>c. \<not> is_space c) x \<Longrightarrow> split_ws_from cur (x @ s) = split_ws_from (cur @ x) s"
  by (induction x arbitrary: cur) simp_all

lemma split_ws_spaced:
  "\<forall>l \<in> set g. wf_location l \<Longrightarrow>
     split_ws_from cur (spaced g) = (if cur = [] then g else cur # g)"
proof (induction g arbitrary: cur)
  case Nil
  then show ?case by simp
next
  case (Cons x g)
  then have x: "x \<noteq> []" "list_all (\<lambda>c. \<not> is_space c) x"
    by (simp_all add: wf_location_def)
  have "split_ws_from [] (x @ spaced g) = x # g"
    using split_ws_word [OF x(2), of "[]" "spaced g"] Cons x(1) by simp
  then show ?case by simp
qed

lemma spaced_last:
  "g \<noteq> [] \<Longrightarrow> \<forall>l \<in> set g. wf_location l \<Longrightarrow> \<not> is_space (last (spaced g))"
proof (induction g rule: rev_induct)
  case Nil
  then show ?case by simp
next
  case (snoc y g)
  then have "y \<noteq> []" "list_all (\<lambda>c. \<not> is_space c) y"
    by (simp_all add: wf_location_def)
  then show ?case
    by (cases y rule: rev_cases) simp_all
qed

lemma strip_spaced:
  assumes "\<forall>l \<in> set g. wf_location l"
  shows "split_ws (strip (spaced g)) = g"
proof (cases g)
  case Nil
  then show ?thesis by (simp add: split_ws_def strip_def lstrip_def rstrip_def)
next
  case (Cons x r)
  with assms have x: "x \<noteq> []" "list_all (\<lambda>c. \<not> is_space c) x" and r: "\<forall>l \<in> set r. wf_location l"
    by (simp_all add: wf_location_def)
  have "\<not> is_space (last (spaced g))"
    using spaced_last [OF _ assms] Cons by simp
  then have "rstrip (spaced g) = spaced g"
    by (simp add: rstrip_id)
  moreover have "lstrip (spaced g) = x @ spaced r"
    using x by (cases x) (simp_all add: Cons lstrip_def)
  ultimately have "strip (spaced g) = x @ spaced r"
    by (simp add: strip_def)
  moreover have "split_ws_from [] (x @ spaced r) = x # r"
    using split_ws_word [OF x(2), of "[]" "spaced r"] split_ws_spaced [OF r, of x] x(1) by simp
  ultimately show ?thesis
    by (simp add: split_ws_def Cons)
qed

lemma location_line:
  assumes "\<forall>l \<in> set g. wf_location l"
  shows "strip (ustr ''#:'' @ spaced g) = ustr ''#:'' @ spaced g"
    and "startswith (ustr ''#:'' @ spaced g) (ustr ''#'')"
    and "core (parse_comment (ustr ''#:'' @ spaced g) cur)
       = (core cur)\<lparr>locations := locations (core cur) @ g\<rparr>"
proof -
  have "\<not> is_space (last (35 # 58 # spaced g))"
    using spaced_last [OF _ assms] by (cases "g = []") simp_all
  then show "strip (ustr ''#:'' @ spaced g) = ustr ''#:'' @ spaced g"
    by (intro strip_id) (simp_all add: ustr_def)
  show "startswith (ustr ''#:'' @ spaced g) (ustr ''#'')"
    by (simp add: startswith_def ustr_def)
  have "drop 2 (ustr ''#:'' @ spaced g) = spaced g"
    by (simp add: ustr_def)
  then show "core (parse_comment (ustr ''#:'' @ spaced g) cur)
       = (core cur)\<lparr>locations := locations (core cur) @ g\<rparr>"
    using strip_spaced [OF assms]
    by (simp add: parse_comment_def startswith_def ustr_def core_def)
qed

lemma pack_locations_groups:
  "\<exists>groups. pack_locations (ustr ''#:'' @ spaced acc) locs
       = map (\<lambda>g. ustr ''#:'' @ spaced g) groups
     \<and> concat groups = acc @ locs"
proof (induction locs arbitrary: acc)
  case Nil
  show ?case
    by (rule exI [of _ "[acc]"]) simp
next
  case (Cons loc locs)
  show ?case
  proof (cases "length (ustr ''#:'' @ spaced acc) + length loc + 1 > 76")
    case True
    from Cons [of "[loc]"] obtain groups where
      "pack_locations (ustr ''#:'' @ spaced [loc]) locs = map (\<lambda>g. ustr ''#:'' @ spaced g) groups"
      "concat groups = [loc] @ locs"
      by blast
    moreover have "ustr ''#: '' @ loc = ustr ''#:'' @ spaced [loc]"
      by (simp add: ustr_def)
    ultimately show ?thesis
      using True by (intro exI [of _ "acc # groups"]) simp
  next
    case False
    from Cons [of "acc @ [loc]"] obtain groups where
      "pack_locations (ustr ''#:'' @ spaced (acc @ [loc])) locs
         = map (\<lambda>g. ustr ''#:'' @ spaced g) groups"
      "concat groups = (acc @ [loc]) @ locs"
      by blast
    moreover have eq: "(ustr ''#:'' @ spaced acc) @ [32] @ loc = ustr ''#:'' @ spaced (acc @ [loc])"
      by simp
    have "pack_locations (ustr ''#:'' @ spaced acc) (loc # locs)
        = pack_locations (ustr ''#:'' @ spaced (acc @ [loc])) locs"
      by (simp only: pack_locations.simps False if_False eq)
    ultimately show ?thesis
      by (intro exI [of _ groups]) simp
  qed
qed

lemma parse_location_groups:
  assumes "\<forall>g \<in> set groups. \<forall>l \<in> set g. wf_location l"
  shows "\<exists>st'. parse_lines n (map (\<lambda>g. ustr ''#:'' @ spaced g) groups) st = Inr st'
     \<and> entries st' = entries st \<and> pmode st' = pmode st
     \<and> view (current st')
         = (view (current st))\<lparr>locations := locations (view (current st)) @ concat groups\<rparr>"
  using assms
proof (induction groups arbitrary: n st)
  case Nil
  then show ?case by simp
next
  case (Cons g groups)
  then have g: "\<forall>l \<in> set g. wf_location l" by simp
  have "ustr ''#:'' @ spaced g \<noteq> []" by (simp add: ustr_def)
  from parse_line_comment [OF location_line(1) [OF g] this location_line(2) [OF g]
      location_line(3) [OF g], of n st]
  obtain st1 where st1: "parse_line n (ustr ''#:'' @ spaced g) st = Inr st1"
    "entries st1 = entries st" "pmode st1 = pmode st"
    "view (current st1) = (view (current st))\<lparr>locations := locations (view (current st)) @ g\<rparr>"
    by auto
  from Cons.IH [of "Suc n" st1] Cons.prems st1 show ?case
    by auto
qed

lemma parse_locations:
  assumes "\<forall>l \<in> set locs. wf_location l"
  shows "\<exists>st'. parse_lines n
        (if locs \<noteq> [] then pack_locations (ustr ''#:'') locs else []) st = Inr st'
     \<and> entries st' = entries st \<and> pmode st' = pmode st
     \<and> view (current st')
         = (view (current st))\<lparr>locations := locations (view (current st)) @ locs\<rparr>"
proof (cases "locs = []")
  case True
  then show ?thesis by simp
next
  case False
  from pack_locations_groups [of "[]" locs] obtain groups where
    g: "pack_locations (ustr ''#:'') locs = map (\<lambda>g. ustr ''#:'' @ spaced g) groups"
    "concat groups = locs"
    by auto
  then have "\<forall>g \<in> set groups. \<forall>l \<in> set g. wf_location l"
    using assms by auto
  from parse_location_groups [OF this, of n st] g False show ?thesis
    by auto
qed

subsection \<open>No line of an entry contains a line boundary\<close>

lemma no_linebreak_append [simp]: "no_linebreak (a @ b) \<longleftrightarrow> no_linebreak a \<and> no_linebreak b"
  by (simp add: no_linebreak_def)

lemma no_linebreak_Cons [simp]: "no_linebreak (c # s) \<longleftrightarrow> \<not> is_linebreak c \<and> no_linebreak s"
  by (simp add: no_linebreak_def)

lemma no_linebreak_Nil [simp]: "no_linebreak []"
  by (simp add: no_linebreak_def)

lemma no_linebreak_ustr [simp]:
  "no_linebreak (ustr ''#. '')" "no_linebreak (ustr ''#:'')" "no_linebreak (ustr ''#, '')"
  "no_linebreak (ustr '', '')" "no_linebreak (ustr ''msgid '')" "no_linebreak (ustr ''msgstr '')"
  by (simp_all add: ustr_def is_linebreak_def)

lemma is_linebreak_facts [simp]:
  "\<not> is_linebreak 34" "\<not> is_linebreak 92" "\<not> is_linebreak 110" "\<not> is_linebreak 32"
  by (simp_all add: is_linebreak_def)

lemma linebreak_is_space: "is_linebreak c \<Longrightarrow> is_space c"
  by (auto simp: is_linebreak_def is_space_def)

lemma no_linebreak_escape:
  assumes "list_all (\<lambda>c. is_linebreak c \<longrightarrow> c = 10 \<or> c = 13) m"
  shows "no_linebreak (escape m)"
  using assms unfolding escape_concat
  by (induction m) (auto simp: esc_def is_linebreak_def)

lemma pieces_linebreaks:
  assumes "list_all (\<lambda>c. is_linebreak c \<longrightarrow> c = 10 \<or> c = 13) m"
  shows "\<forall>p \<in> set (split_sep m [10]). list_all (\<lambda>c. is_linebreak c \<longrightarrow> c = 10 \<or> c = 13) p"
  unfolding split_sep_def
  by (rule split1_pieces [where P = "list_all (\<lambda>c. is_linebreak c \<longrightarrow> c = 10 \<or> c = 13)"])
     (simp_all add: assms)

lemma no_linebreak_chunks:
  "\<forall>p \<in> set ps. no_linebreak (escape p) \<Longrightarrow> \<forall>l \<in> set (quote_chunks (map escape ps)). no_linebreak l"
  by (induction ps rule: induct_list012) simp_all

lemma no_linebreak_msgid:
  assumes "text_ok m"
  shows "\<forall>l \<in> set (serialize_msgid m). no_linebreak l"
proof -
  from assms have lb: "list_all (\<lambda>c. is_linebreak c \<longrightarrow> c = 10 \<or> c = 13) m"
    and safe: "backslash_safe m"
    by (simp_all add: text_ok_def)
  have "\<forall>p \<in> set (split_sep m [10]). no_linebreak (escape p)"
    using pieces_linebreaks [OF lb] by (auto intro: no_linebreak_escape)
  from no_linebreak_chunks [OF this] no_linebreak_escape [OF lb] show ?thesis
    by (simp add: serialize_msgid_def Let_def split_escape [OF safe])
qed

lemma no_linebreak_msgstr:
  assumes "text_ok m"
  shows "\<forall>l \<in> set (serialize_msgstr m). no_linebreak l"
proof -
  from assms have lb: "list_all (\<lambda>c. is_linebreak c \<longrightarrow> c = 10 \<or> c = 13) m"
    and safe: "backslash_safe m"
    by (simp_all add: text_ok_def)
  have "\<forall>p \<in> set (split_sep m [10]). no_linebreak (escape p)"
    using pieces_linebreaks [OF lb] by (auto intro: no_linebreak_escape)
  from no_linebreak_chunks [OF this] no_linebreak_escape [OF lb] show ?thesis
    by (simp add: serialize_msgstr_def Let_def split_escape [OF safe])
qed

lemma no_linebreak_join:
  "\<forall>f \<in> set fs. no_linebreak f \<Longrightarrow> no_linebreak (join (ustr '', '') fs)"
  by (induction fs rule: induct_list012) simp_all

lemma no_linebreak_spaced:
  "\<forall>l \<in> set g. wf_location l \<Longrightarrow> no_linebreak (spaced g)"
  by (induction g) (auto simp: wf_location_def no_linebreak_def list_all_iff dest: linebreak_is_space)

lemma no_linebreak_locations:
  assumes "\<forall>l \<in> set locs. wf_location l"
  shows "\<forall>l \<in> set (pack_locations (ustr ''#:'') locs). no_linebreak l"
proof -
  from pack_locations_groups [of "[]" locs] obtain groups where
    g: "pack_locations (ustr ''#:'') locs = map (\<lambda>g. ustr ''#:'' @ spaced g) groups"
    "concat groups = locs"
    by auto
  then have "\<forall>g \<in> set groups. \<forall>l \<in> set g. wf_location l"
    using assms by auto
  then show ?thesis
    unfolding g(1) by (auto intro: no_linebreak_spaced)
qed

lemma entry_lines_no_linebreak:
  assumes "wf_entry e"
  shows "\<forall>l \<in> set (entry_lines e). no_linebreak l"
proof -
  from assms have
    c: "\<forall>c \<in> set (comments e). no_linebreak c"
    and x: "\<forall>x \<in> set (extracted_comments e). no_linebreak x"
    and l: "\<forall>l \<in> set (locations e). wf_location l"
    and f: "\<forall>f \<in> set (flags e). no_linebreak f"
    and m: "text_ok (msgid e)" "text_ok (msgstr e)"
    by (simp_all add: wf_entry_def list_all_iff wf_comment_def wf_extracted_def wf_flag_def)
  show ?thesis
    unfolding entry_lines_def
    using c x no_linebreak_locations [OF l] no_linebreak_join [OF f]
      no_linebreak_msgid [OF m(1)] no_linebreak_msgstr [OF m(2)]
    by auto
qed

subsection \<open>Entries and catalogs\<close>

lemma parse_lines_seq:
  assumes "parse_lines n xs st = Inr st1" and "parse_lines (n + length xs) ys st1 = Inr st2"
  shows "parse_lines n (xs @ ys) st = Inr st2"
  by (simp add: parse_lines_append assms)

lemma core_wf:
  assumes "\<not> is_obsolete e"
  shows "(view None)\<lparr>comments := comments e, extracted_comments := extracted_comments e,
       locations := locations e, flags := flags e, msgid := msgid e, msgstr := msgstr e\<rparr>
     = core e"
  using assms by (cases e) (simp add: view_def core_def new_entry_def)

lemma parse_entry_lines:
  assumes wf: "wf_entry e" and st: "current st = None" "pmode st = None"
  shows "\<exists>st' c. parse_lines n (entry_lines e) st = Inr st' \<and> entries st' = entries st
     \<and> current st' = Some c \<and> (is_header c \<or> msgid c \<noteq> []) \<and> core c = core e"
proof -
  from wf have
    c: "\<forall>c \<in> set (comments e). wf_comment c"
    and x: "\<forall>x \<in> set (extracted_comments e). wf_extracted x"
    and l: "\<forall>l \<in> set (locations e). wf_location l"
    and f: "\<forall>f \<in> set (flags e). wf_flag f"
    and m: "backslash_safe (msgid e)" "backslash_safe (msgstr e)"
    and o: "\<not> is_obsolete e"
    by (simp_all add: wf_entry_def list_all_iff text_ok_def)
  define L1 where "L1 = comments e"
  define L2 where "L2 = map (\<lambda>ec. ustr ''#. '' @ ec) (extracted_comments e)"
  define L3 where "L3 = (if locations e \<noteq> [] then pack_locations (ustr ''#:'') (locations e) else [])"
  define L4 where "L4 = (if flags e \<noteq> [] then [ustr ''#, '' @ join (ustr '', '') (flags e)] else [])"
  define L5 where "L5 = serialize_msgid (msgid e)"
  define L6 where "L6 = serialize_msgstr (msgstr e)"
  have "filter (\<lambda>c. \<not> startswith c (ustr ''#~'')) (comments e) = comments e"
    using c by (simp add: wf_comment_def filter_id_conv)
  then have lines: "entry_lines e = L1 @ L2 @ L3 @ L4 @ L5 @ L6"
    by (simp add: entry_lines_def L1_def L2_def L3_def L4_def L5_def L6_def)
  define v0 where "v0 = view None"
  have v0: "comments v0 = []" "extracted_comments v0 = []" "locations v0 = []" "flags v0 = []"
    by (simp_all add: v0_def view_def core_def new_entry_def)
  have vst: "view None = v0"
    by (simp add: v0_def)
  from parse_comments [OF c, of n st] obtain st1 where
    1: "parse_lines n L1 st = Inr st1" "entries st1 = entries st" "pmode st1 = None"
    "view (current st1) = v0\<lparr>comments := comments e\<rparr>"
    by (auto simp: L1_def st vst v0)
  from parse_extracted [OF x, of "n + length L1" st1] obtain st2 where
    2: "parse_lines (n + length L1) L2 st1 = Inr st2" "entries st2 = entries st" "pmode st2 = None"
    "view (current st2) = v0\<lparr>comments := comments e, extracted_comments := extracted_comments e\<rparr>"
    by (auto simp: L2_def 1 v0)
  from parse_locations [OF l, of "n + length L1 + length L2" st2] obtain st3 where
    3: "parse_lines (n + length L1 + length L2) L3 st2 = Inr st3" "entries st3 = entries st"
    "pmode st3 = None"
    "view (current st3) = v0\<lparr>comments := comments e, extracted_comments := extracted_comments e,
       locations := locations e\<rparr>"
    by (auto simp: L3_def 2 v0)
  obtain st4 where
    4: "parse_lines (n + length L1 + length L2 + length L3) L4 st3 = Inr st4"
    "entries st4 = entries st" "pmode st4 = None"
    "view (current st4) = v0\<lparr>comments := comments e, extracted_comments := extracted_comments e,
       locations := locations e, flags := flags e\<rparr>"
  proof -
    from parse_flags [OF f, of "n + length L1 + length L2 + length L3" st3] obtain st4 where
      a: "parse_lines (n + length L1 + length L2 + length L3) L4 st3 = Inr st4"
      "entries st4 = entries st3" "pmode st4 = pmode st3"
      "view (current st4)
         = (if flags e = [] then view (current st3) else (view (current st3))\<lparr>flags := flags e\<rparr>)"
      unfolding L4_def by blast
    have v4: "view (current st4) = v0\<lparr>comments := comments e,
        extracted_comments := extracted_comments e, locations := locations e, flags := flags e\<rparr>"
    proof (cases "flags e = []")
      case True
      have "v0\<lparr>comments := comments e, extracted_comments := extracted_comments e,
          locations := locations e, flags := []\<rparr>
        = v0\<lparr>comments := comments e, extracted_comments := extracted_comments e,
          locations := locations e\<rparr>"
        using v0(4) by (cases v0) simp
      with True a(4) 3(4) show ?thesis by simp
    next
      case False
      with a(4) 3(4) show ?thesis by simp
    qed
    show ?thesis
    proof (rule that [of st4])
      show "parse_lines (n + length L1 + length L2 + length L3) L4 st3 = Inr st4"
        by (rule a(1))
      show "entries st4 = entries st" using a(2) 3(2) by simp
      show "pmode st4 = None" using a(3) 3(3) by simp
      show "view (current st4) = v0\<lparr>comments := comments e,
          extracted_comments := extracted_comments e, locations := locations e,
          flags := flags e\<rparr>"
        by (rule v4)
    qed
  qed
  from parse_serialize_msgid [OF 4(3) m(1), of "n + length L1 + length L2 + length L3 + length L4"]
  obtain st5 c5 where
    5: "parse_lines (n + length L1 + length L2 + length L3 + length L4) L5 st4 = Inr st5"
    "entries st5 = entries st" "current st5 = Some c5" "is_header c5 \<or> msgid c5 \<noteq> []"
    "core c5 = v0\<lparr>comments := comments e, extracted_comments := extracted_comments e,
       locations := locations e, flags := flags e, msgid := msgid e\<rparr>"
    unfolding L5_def 4(4) 4(2) by blast
  from parse_serialize_msgstr [OF 5(3) m(2),
      of "n + length L1 + length L2 + length L3 + length L4 + length L5"]
  obtain st6 where
    6: "parse_lines (n + length L1 + length L2 + length L3 + length L4 + length L5) L6 st5 = Inr st6"
    "entries st6 = entries st" "current st6 = Some (c5\<lparr>msgstr := msgstr e\<rparr>)"
    unfolding L6_def 5(2) by blast
  have "core (c5\<lparr>msgstr := msgstr e\<rparr>) = (core c5)\<lparr>msgstr := msgstr e\<rparr>"
    by (simp add: core_def)
  then have core: "core (c5\<lparr>msgstr := msgstr e\<rparr>) = core e"
    unfolding 5(5) v0_def using core_wf [OF o] by simp
  have "parse_lines n (L1 @ L2 @ L3 @ L4 @ L5 @ L6) st = Inr st6"
    using 1(1) 2(1) 3(1) 4(1) 5(1) 6(1)
    by (simp add: parse_lines_append add.assoc)
  with 6 5(4) core have "parse_lines n (entry_lines e) st = Inr st6 \<and> entries st6 = entries st
     \<and> current st6 = Some (c5\<lparr>msgstr := msgstr e\<rparr>)
     \<and> (is_header (c5\<lparr>msgstr := msgstr e\<rparr>) \<or> msgid (c5\<lparr>msgstr := msgstr e\<rparr>) \<noteq> [])
     \<and> core (c5\<lparr>msgstr := msgstr e\<rparr>) = core e"
    unfolding lines by simp
  then show ?thesis by blast
qed

lemma parse_blank: "parse_line n [] st = Inr (flush st)"
  by (simp add: parse_line_def strip_def lstrip_def rstrip_def)

lemma parse_all_lines:
  assumes "\<forall>e \<in> set c. wf_entry e" and "c \<noteq> []"
  shows "\<exists>st es. parse_lines n (all_lines c) \<lparr>entries = acc, current = None, pmode = None\<rparr> = Inr st
     \<and> entries (flush st) = acc @ es \<and> map core es = map core c"
  using assms
proof (induction c arbitrary: n acc rule: all_lines.induct)
  case 1
  then show ?case by simp
next
  case (2 e)
  then have "wf_entry e" by simp
  from parse_entry_lines [OF this, of "\<lparr>entries = acc, current = None, pmode = None\<rparr>" n]
  obtain st' c where "parse_lines n (entry_lines e) \<lparr>entries = acc, current = None, pmode = None\<rparr> = Inr st'"
    "entries st' = acc" "current st' = Some c" "is_header c \<or> msgid c \<noteq> []" "core c = core e"
    by auto
  then have "parse_lines n (all_lines [e]) \<lparr>entries = acc, current = None, pmode = None\<rparr> = Inr st'
     \<and> entries (flush st') = acc @ [c] \<and> map core [c] = map core [e]"
    by (simp add: flush_def)
  then show ?case by blast
next
  case (3 e e' es)
  then have "wf_entry e" by simp
  from parse_entry_lines [OF this, of "\<lparr>entries = acc, current = None, pmode = None\<rparr>" n]
  obtain st1 c1 where 1: "parse_lines n (entry_lines e) \<lparr>entries = acc, current = None, pmode = None\<rparr> = Inr st1"
    "entries st1 = acc" "current st1 = Some c1" "is_header c1 \<or> msgid c1 \<noteq> []" "core c1 = core e"
    by auto
  have fl: "flush st1 = \<lparr>entries = acc @ [c1], current = None, pmode = None\<rparr>"
    using 1 by (cases st1) (auto simp: flush_def)
  have "\<forall>e \<in> set (e' # es). wf_entry e" "e' # es \<noteq> []"
    using "3.prems" by simp_all
  from "3.IH" [OF this, of "Suc (n + length (entry_lines e))" "acc @ [c1]"]
  obtain st2 es2 where 2: "parse_lines (Suc (n + length (entry_lines e))) (all_lines (e' # es))
       \<lparr>entries = acc @ [c1], current = None, pmode = None\<rparr> = Inr st2"
    "entries (flush st2) = (acc @ [c1]) @ es2" "map core es2 = map core (e' # es)"
    by auto
  have "parse_lines n (entry_lines e @ [] # all_lines (e' # es))
      \<lparr>entries = acc, current = None, pmode = None\<rparr> = Inr st2"
    using 1(1) 2(1) by (simp add: parse_lines_append parse_blank fl)
  with 2 1(5) have "parse_lines n (all_lines (e # e' # es))
       \<lparr>entries = acc, current = None, pmode = None\<rparr> = Inr st2
     \<and> entries (flush st2) = acc @ (c1 # es2) \<and> map core (c1 # es2) = map core (e # e' # es)"
    by simp
  then show ?case by blast
qed

lemma core_tuple: "core a = core b \<Longrightarrow> entry_tuple a = entry_tuple b"
  by (cases a; cases b) (simp add: core_def entry_tuple_def)

lemma map_core_tuple: "map core xs = map core ys \<Longrightarrow> map entry_tuple xs = map entry_tuple ys"
proof (induction xs arbitrary: ys)
  case Nil
  then show ?case by simp
next
  case (Cons x xs)
  then obtain y ys' where ys: "ys = y # ys'" "core x = core y" "map core xs = map core ys'"
    by (cases ys) auto
  from core_tuple [OF ys(2)] Cons.IH [OF ys(3)] show ?case
    by (simp add: ys(1))
qed

text \<open>
  C2, as the code has it.  For every catalog whose entries are well-formed, parsing the
  serialized catalog returns, without an exception, entries with the same tuples
  (\<open>msgid\<close>, \<open>msgstr\<close>, flags, locations, comments, extracted comments, obsolete state),
  in the same order.  An entry is well-formed when it is not obsolete, its comments are
  stripped lines starting with \<open>#\<close> and not with \<open>#,\<close>, \<open>#:\<close>, \<open>#.\<close> or \<open>#~\<close>, its
  extracted comments and flags are stripped, its flags have no comma, its locations are
  tokens without whitespace, none of these contains a line boundary, and its \<open>msgid\<close>
  and \<open>msgstr\<close> have no backslash directly before \<open>n\<close>, \<open>r\<close> or \<open>t\<close> and no line
  boundary other than line feed and carriage return.
\<close>

theorem parse_serialize_roundtrip:
  assumes "list_all wf_entry c"
  shows "\<exists>es. parse (serialize c) = Inr es \<and> map entry_tuple es = map entry_tuple c"
proof (cases "c = []")
  case True
  then show ?thesis
    by (simp add: parse_def serialize_def splitlines_def is_linebreak_def parse_blank flush_def)
next
  case False
  from assms have wf: "\<forall>e \<in> set c. wf_entry e"
    by (simp add: list_all_iff)
  then have "splitlines (serialize c) = all_lines c"
    by (intro splitlines_serialize) (auto dest: entry_lines_no_linebreak)
  moreover from parse_all_lines [OF wf False, of 1 "[]"] obtain st es where
    p: "parse_lines 1 (all_lines c) \<lparr>entries = [], current = None, pmode = None\<rparr> = Inr st"
    "entries (flush st) = es" and m: "map core es = map core c"
    by auto
  ultimately have "parse (serialize c) = Inr es"
    by (simp add: parse_def)
  moreover have "map entry_tuple es = map entry_tuple c"
    using m by (rule map_core_tuple)
  ultimately show ?thesis by blast
qed

text \<open>The theorem at a catalog of a header and an entry with every kind of line, a
  \<open>msgid\<close> of two lines and a \<open>msgstr\<close> with a backslash, a quote and a tab.\<close>

lemma wf_sample: "list_all wf_entry [sample_header, sample_entry]"
  by (simp add: wf_entry_def wf_comment_def wf_extracted_def wf_location_def wf_flag_def
       text_ok_def no_linebreak_def is_linebreak_def sample_header_def sample_entry_def
       new_entry_def string_defs)

theorem parse_serialize_roundtrip_witness:
  "list_all wf_entry [sample_header, sample_entry]
   \<and> (\<exists>es. parse (serialize [sample_header, sample_entry]) = Inr es
          \<and> map entry_tuple es = map entry_tuple [sample_header, sample_entry])"
  using parse_serialize_roundtrip [OF wf_sample] wf_sample by blast

text \<open>
  C2 as it is stated fails: a comment that does not start with \<open>#\<close> is written as a
  line that the parser skips, and a flag with a comma is read back as two flags.
\<close>

theorem roundtrip_counterexample:
  "parse (serialize [loose_entry])
     = Inr [(new_entry 2)\<lparr>msgid := ustr ''Save'', msgstr := ustr ''Enregistrer'',
              flags := [ustr ''a'', ustr ''b'']\<rparr>]
   \<and> comments loose_entry = [ustr ''note'']
   \<and> flags loose_entry = [ustr ''a,b'']"
  by (simp add: string_defs parse_defs serialize_def serialize_entry_def serialize_msgid_def
        serialize_msgstr_def escape_def loose_entry_def new_entry_def flush_def
        parse_comment_def split_sep_def)

end
